theory Spec2Isabelle
  imports Main "HOL-Library.AList"
begin

section \<open>The formatting layer used by the progress writer\<close>

text \<open>
  The writer of \<^verbatim>\<open>progress/tty.go\<close> builds its lines with \<^verbatim>\<open>fmt.Sprintf\<close>,
  \<^verbatim>\<open>strings.Repeat\<close> and \<^verbatim>\<open>len\<close>. A Go string is a sequence of bytes: it is a
  \<^typ>\<open>string\<close> here, \<^verbatim>\<open>len\<close> is \<^const>\<open>length\<close>, and Go's \<^verbatim>\<open>int\<close> is \<^typ>\<open>int\<close>
  (the lengths and widths that occur are far from the 64-bit bounds).

  \<^verbatim>\<open>fmt\<close> measures the operand of a padded \<^verbatim>\<open>%s\<close> in runes, not in bytes
  (\<^verbatim>\<open>utf8.RuneCountInString\<close>): a byte below \<open>0x80\<close> is a rune, a well-formed
  multi-byte sequence is one rune, and any other byte counts as a rune of its own.
\<close>

definition first :: "nat \<Rightarrow> (nat \<times> nat \<times> nat) option" where
  \<comment> \<open>for a leading byte: the size of the sequence and the range accepted for its
      second byte; \<open>None\<close> for a byte that cannot lead a sequence\<close>
  "first c =
     (if 0xC2 \<le> c \<and> c \<le> 0xDF then Some (2, 0x80, 0xBF)
      else if c = 0xE0 then Some (3, 0xA0, 0xBF)
      else if 0xE1 \<le> c \<and> c \<le> 0xEC then Some (3, 0x80, 0xBF)
      else if c = 0xED then Some (3, 0x80, 0x9F)
      else if c = 0xEE \<or> c = 0xEF then Some (3, 0x80, 0xBF)
      else if c = 0xF0 then Some (4, 0x90, 0xBF)
      else if 0xF1 \<le> c \<and> c \<le> 0xF3 then Some (4, 0x80, 0xBF)
      else if c = 0xF4 then Some (4, 0x80, 0x8F)
      else None)"

definition runeSize :: "char \<Rightarrow> string \<Rightarrow> nat" where
  \<comment> \<open>the number of bytes that the rune starting with byte \<open>c\<close>, followed by \<open>s\<close>, takes\<close>
  "runeSize c s =
     (if (of_char c :: nat) < 0x80 then 1
      else case first (of_char c) of
        None \<Rightarrow> 1
      | Some (sz, lo, hi) \<Rightarrow>
          if Suc (length s) < sz then 1
          else if (of_char (s ! 0) :: nat) < lo \<or> hi < (of_char (s ! 0) :: nat) then 1
          else if sz = 2 then 2
          else if (of_char (s ! 1) :: nat) < 0x80 \<or> 0xBF < (of_char (s ! 1) :: nat) then 1
          else if sz = 3 then 3
          else if (of_char (s ! 2) :: nat) < 0x80 \<or> 0xBF < (of_char (s ! 2) :: nat) then 1
          else 4)"

function RuneCountInString :: "string \<Rightarrow> nat" where
  "RuneCountInString [] = 0"
| "RuneCountInString (c # s) = Suc (RuneCountInString (drop (runeSize c s - 1) s))"
  by pat_completeness auto
termination
  by (relation "measure length") auto

text \<open>
  A width taken from an argument (\<^verbatim>\<open>*\<close>) whose magnitude exceeds \<open>10\<^sup>6\<close> is refused by
  \<^verbatim>\<open>fmt\<close>, which writes \<^verbatim>\<open>%!(BADWIDTH)\<close> and formats the operand without a width. A
  negative width is taken as its absolute value with the \<^verbatim>\<open>-\<close> flag set. With the flag
  \<^verbatim>\<open>-\<close> the operand is written first and the padding of spaces after it.

  In \<open>align\<close> the field width is \<open>w - len(r) - 1\<close>. Where this difference would leave the
  64-bit range and wrap around, both the wrapped value and the exact one exceed \<open>10\<^sup>6\<close> in
  magnitude, so the exact difference gives the result of the code.
\<close>

definition tooLarge :: "int \<Rightarrow> bool" where
  "tooLarge x \<longleftrightarrow> x > 1000000 \<or> x < - 1000000"

definition Sprintf_left :: "string \<Rightarrow> int \<Rightarrow> string" where
  \<comment> \<open>\<^verbatim>\<open>fmt.Sprintf("%-*s", n, l)\<close>\<close>
  "Sprintf_left l n =
     (if tooLarge n then ''%!(BADWIDTH)'' @ l
      else l @ replicate (nat (\<bar>n\<bar> - int (RuneCountInString l))) (CHR '' ''))"

definition align :: "string \<Rightarrow> string \<Rightarrow> int \<Rightarrow> string" where
  \<comment> \<open>\<^verbatim>\<open>fmt.Sprintf("%-[2]*[1]s %[3]s", l, w-len(r)-1, r)\<close>\<close>
  "align l r w = Sprintf_left l (w - int (length r) - 1) @ '' '' @ r"

text \<open>The run-time panics that can occur. \<^verbatim>\<open>strings.Repeat\<close> panics when the count is negative.\<close>

datatype panic = NilDereference | NegativeRepeatCount | IndexOutOfRange

definition strings_Repeat :: "string \<Rightarrow> int \<Rightarrow> panic + string" where
  "strings_Repeat s count =
     (if count < 0 then Inl NegativeRepeatCount else Inr (concat (replicate (nat count) s)))"

text \<open>The verb \<^verbatim>\<open>%d\<close>: an integer in decimal, with a minus sign when it is negative.\<close>

fun digits :: "nat \<Rightarrow> string" where
  "digits n = (if n < 10 then [char_of (48 + n)] else digits (n div 10) @ [char_of (48 + n mod 10)])"

declare digits.simps [simp del]

definition Sprintf_d :: "int \<Rightarrow> string" where
  "Sprintf_d i = (if i < 0 then CHR ''-'' # digits (nat (- i)) else digits (nat i))"

section \<open>Events, spinners and the writer\<close>

text \<open>
  The declarations of \<^verbatim>\<open>Event\<close>, of its status and of the spinner are in files of the
  package that are not part of the verified sources; \<^verbatim>\<open>tty.go\<close> uses the fields
  below. A time is a number of nanoseconds, and the zero time is \<open>0\<close>.

  An event holds a pointer to its spinner. The spinner objects live in a store, the list
  of the objects allocated so far, and a pointer is \<open>None\<close> (\<^verbatim>\<open>nil\<close>) or the index of
  an object in the store. Dereferencing anything else panics.
\<close>

text \<open>
  Modelled from the spec: the declarations of the status and of \<^verbatim>\<open>Event\<close> are missing.
  The status is one of \<open>Working\<close>, \<open>Done\<close> and \<open>Error\<close>, and an event has the fields
  that section 3 of the specification lists, which are the ones \<^verbatim>\<open>tty.go\<close> reads and
  writes.
\<close>

datatype EventStatus = Working | Done | Error

record Event =
  ID :: string
  Text :: string
  Status :: EventStatus
  StatusText :: string
  startTime :: int
  endTime :: int
  spinner :: "nat option"

text \<open>
  What lies outside the verified files is a parameter: the state \<open>'sp\<close> of a spinner with
  its constructor and its two methods (\<^verbatim>\<open>String\<close> gives the frame to show and may move the
  animation on; both it and the constructor may read the clock), and the rendering of a
  duration by \<^verbatim>\<open>fmt.Sprintf("%.1fs\n", d.Seconds())\<close>, which is floating point.
\<close>

record 'sp externals =
  newSpinner :: "int \<Rightarrow> 'sp"
  spinner_Stop :: "'sp \<Rightarrow> 'sp"
  spinner_String :: "int \<Rightarrow> 'sp \<Rightarrow> string \<times> 'sp"
  Sprintf_seconds :: "int \<Rightarrow> string"

text \<open>
  The writer. The channel and the lock of the Go struct order the calls: every call of
  \<^verbatim>\<open>Event\<close> and of \<^verbatim>\<open>print\<close> runs under the lock, so it is one step on the state
  below. What \<^verbatim>\<open>print\<close> writes to \<^verbatim>\<open>out\<close> is returned by the step. The Go map
  \<^verbatim>\<open>events\<close> is a list of entries read with \<^const>\<open>map_of\<close> and written with
  \<^const>\<open>AList.update\<close>, which keeps one entry per key. The field \<open>spinners\<close> is not a
  field of the struct: it is the store of the spinner objects.
\<close>

record 'sp ttyWriter =
  events :: "(string \<times> Event) list"
  eventIDs :: "string list"
  repeated :: bool
  numLines :: int
  spinners :: "'sp list"

definition zeroEvent :: Event where
  \<comment> \<open>the zero value that a Go map gives for a key it does not hold\<close>
  "zeroEvent = \<lparr>ID = [], Text = [], Status = Working, StatusText = [],
                 startTime = 0, endTime = 0, spinner = None\<rparr>"

definition index :: "(string \<times> Event) list \<Rightarrow> string \<Rightarrow> Event" where
  \<comment> \<open>\<^verbatim>\<open>events[v]\<close>\<close>
  "index evs v = (case map_of evs v of Some e \<Rightarrow> e | None \<Rightarrow> zeroEvent)"

fun contains :: "string list \<Rightarrow> string \<Rightarrow> bool" where
  "contains [] needle = False"
| "contains (v # ar) needle = (if needle = v then True else contains ar needle)"

definition Event_stop :: "'sp externals \<Rightarrow> int \<Rightarrow> Event \<Rightarrow> 'sp list \<Rightarrow> panic + Event \<times> 'sp list" where
  \<comment> \<open>Modelled from the spec: the method \<^verbatim>\<open>stop\<close> of \<^verbatim>\<open>Event\<close> is not in the verified
      files. It freezes \<open>endTime = now\<close> and stops the advancement of the event's spinner.\<close>
  "Event_stop X now event h =
     (case spinner event of
        None \<Rightarrow> Inl NilDereference
      | Some a \<Rightarrow>
          if a < length h
          then Inr (event\<lparr>endTime := now\<rparr>, h[a := spinner_Stop X (h ! a)])
          else Inl NilDereference)"

definition ttyWriter_Event :: "'sp externals \<Rightarrow> int \<Rightarrow> Event \<Rightarrow> 'sp ttyWriter \<Rightarrow> panic + 'sp ttyWriter" where
  "ttyWriter_Event X now e w =
     (let w1 = (if \<not> contains (eventIDs w) (ID e)
                then w\<lparr>eventIDs := eventIDs w @ [ID e]\<rparr> else w)
      in case map_of (events w1) (ID e) of
        Some event \<Rightarrow>
          (case (if Status event \<noteq> Done \<and> Status e = Done
                 then Event_stop X now event (spinners w1)
                 else Inr (event, spinners w1)) of
             Inl p \<Rightarrow> Inl p
           | Inr (event1, h) \<Rightarrow>
               Inr (w1\<lparr>events := AList.update (ID e)
                                   (event1\<lparr>Status := Status e, Text := Text e,
                                           StatusText := StatusText e\<rparr>) (events w1),
                        spinners := h\<rparr>))
      | None \<Rightarrow>
          Inr (w1\<lparr>events := AList.update (ID e)
                              (e\<lparr>startTime := now, spinner := Some (length (spinners w1))\<rparr>)
                              (events w1),
                   spinners := spinners w1 @ [newSpinner X now]\<rparr>))"

fun numDone :: "(string \<times> Event) list \<Rightarrow> int" where
  "numDone [] = 0"
| "numDone ((k, e) # es) = (if Status e = Done then 1 else 0) + numDone es"

section \<open>Laying out a line\<close>

text \<open>
  \<^verbatim>\<open>Time.Sub\<close> gives the difference of two times as a 64-bit duration and saturates at the
  bounds of that type.
\<close>

definition time_Sub :: "int \<Rightarrow> int \<Rightarrow> int" where
  "time_Sub t u = max (- (2 ^ 63)) (min (2 ^ 63 - 1) (t - u))"

text \<open>
  \<^verbatim>\<open>aec.Apply\<close> wraps a string in the escape codes of a colour; the model keeps the
  string and the colour.
\<close>

datatype color = WhiteF | BlueF | RedF

datatype styled = Plain string | Apply string color

definition String_at :: "'sp externals \<Rightarrow> int \<Rightarrow> nat option \<Rightarrow> 'sp list \<Rightarrow> panic + string \<times> 'sp list" where
  \<comment> \<open>\<^verbatim>\<open>p.String()\<close> for a spinner pointer \<open>p\<close>\<close>
  "String_at X now p h =
     (case p of
        None \<Rightarrow> Inl NilDereference
      | Some a \<Rightarrow>
          if a < length h
          then (let (frame, s) = spinner_String X now (h ! a) in Inr (frame, h[a := s]))
          else Inl NilDereference)"

definition lineText :: "'sp externals \<Rightarrow> int \<Rightarrow> Event \<Rightarrow> int \<Rightarrow> int \<Rightarrow> 'sp list \<Rightarrow> panic + styled \<times> 'sp list" where
  "lineText X now event terminalWidth statusPadding h =
     (let endTime1 = (if Status event \<noteq> Working then endTime event else now);
          elapsed = time_Sub endTime1 (startTime event);
          textLen = int (length (ID event @ '' '' @ Text event));
          padding = (if statusPadding - textLen < 0 then 0 else statusPadding - textLen)
      in case String_at X now (spinner event) h of
        Inl p \<Rightarrow> Inl p
      | Inr (frame, h1) \<Rightarrow>
          (case strings_Repeat '' '' padding of
             Inl p \<Rightarrow> Inl p
           | Inr spaces \<Rightarrow>
               (let text = '' '' @ frame @ '' '' @ ID event @ '' '' @ Text event @ spaces
                             @ '' '' @ StatusText event;
                    timer = Sprintf_seconds X elapsed;
                    o1 = align text timer terminalWidth;
                    color0 = WhiteF;
                    color1 = (if Status event = Done then BlueF else color0);
                    color2 = (if Status event = Error then RedF else color1)
                in Inr (Apply o1 color2, h1))))"

section \<open>Repainting\<close>

text \<open>
  What a repaint writes, in order: the cursor movements collected in the \<^verbatim>\<open>aec\<close>
  builder, the escape code that hides the cursor, the header line (written with
  \<^verbatim>\<open>Fprintln\<close>), the event lines (written with \<^verbatim>\<open>Fprint\<close>), and the deferred escape
  code that shows the cursor again. The width of the terminal (\<^verbatim>\<open>goterm.Width()\<close>) and
  the clock are inputs of the step.
\<close>

datatype cursor = Up nat | Down nat | Column nat

datatype written = ANSI "cursor list" | Hide | Show | Fprint styled | Fprintln styled

fun printLines :: "'sp externals \<Rightarrow> int \<Rightarrow> int \<Rightarrow> int \<Rightarrow> (string \<times> Event) list \<Rightarrow> string list
    \<Rightarrow> 'sp list \<Rightarrow> panic + styled list \<times> 'sp list" where
  \<comment> \<open>the second loop of \<^verbatim>\<open>print\<close>; \<^verbatim>\<open>numLines\<close> counts the lines it returns\<close>
  "printLines X now terminalWidth statusPadding evs [] h = Inr ([], h)"
| "printLines X now terminalWidth statusPadding evs (v # vs) h =
     (case lineText X now (index evs v) terminalWidth statusPadding h of
        Inl p \<Rightarrow> Inl p
      | Inr (line, h1) \<Rightarrow>
          (case printLines X now terminalWidth statusPadding evs vs h1 of
             Inl p \<Rightarrow> Inl p
           | Inr (lines, h2) \<Rightarrow> Inr (line # lines, h2)))"

definition statusPadding_of :: "(string \<times> Event) list \<Rightarrow> string list \<Rightarrow> int" where
  \<comment> \<open>the first loop of \<^verbatim>\<open>print\<close>\<close>
  "statusPadding_of evs ids =
     fold (\<lambda>v statusPadding.
             let l = int (length (ID (index evs v) @ '' '' @ Text (index evs v)))
             in if statusPadding < l then l else statusPadding) ids 0"

definition ttyWriter_print :: "'sp externals \<Rightarrow> int \<Rightarrow> int \<Rightarrow> 'sp ttyWriter
    \<Rightarrow> panic + 'sp ttyWriter \<times> written list" where
  "ttyWriter_print X now terminalWidth w =
     (if length (eventIDs w) = 0 then Inr (w, [])
      else
        let b = replicate (nat (numLines w + 1)) (Up 1)
                  @ (if \<not> repeated w then [Down 1] else []) @ [Column 0];
            firstLine = ''[+] Running '' @ Sprintf_d (numDone (events w)) @ ''/''
                          @ Sprintf_d (numLines w);
            header = (if numLines w \<noteq> 0 \<and> numDone (events w) = numLines w
                      then Apply firstLine BlueF else Plain firstLine);
            statusPadding = statusPadding_of (events w) (eventIDs w)
        in case printLines X now terminalWidth statusPadding (events w) (eventIDs w) (spinners w) of
          Inl p \<Rightarrow> Inl p
        | Inr (lines, h) \<Rightarrow>
            Inr (w\<lparr>repeated := True, numLines := int (length lines), spinners := h\<rparr>,
                 [ANSI b, Hide, Fprintln header] @ map Fprint lines @ [Show]))"

section \<open>The repaint loop\<close>

text \<open>
  \<^verbatim>\<open>Start\<close> waits in a \<^verbatim>\<open>select\<close> for the context, the channel \<^verbatim>\<open>done\<close> or the ticker.
  The model runs it on the sequence of what the \<^verbatim>\<open>select\<close> receives, each with the clock
  and the terminal width of that moment. When the sequence ends, \<^verbatim>\<open>Start\<close> is still
  waiting: it has not returned. The result holds the output of every call of
  \<^verbatim>\<open>print\<close>, in order.
\<close>

datatype ctx_error = Canceled | DeadlineExceeded

datatype received = ctx_Done ctx_error | w_done | ticker_C

datatype returned = Blocked | Returned "ctx_error option"

fun Start :: "'sp externals \<Rightarrow> (received \<times> int \<times> int) list \<Rightarrow> 'sp ttyWriter
    \<Rightarrow> panic + 'sp ttyWriter \<times> written list list \<times> returned" where
  "Start X [] w = Inr (w, [], Blocked)"
| "Start X ((ctx_Done err, now, width) # rest) w =
     (case ttyWriter_print X now width w of
        Inl p \<Rightarrow> Inl p
      | Inr (w1, out) \<Rightarrow> Inr (w1, [out], Returned (Some err)))"
| "Start X ((w_done, now, width) # rest) w =
     (case ttyWriter_print X now width w of
        Inl p \<Rightarrow> Inl p
      | Inr (w1, out) \<Rightarrow> Inr (w1, [out], Returned None))"
| "Start X ((ticker_C, now, width) # rest) w =
     (case ttyWriter_print X now width w of
        Inl p \<Rightarrow> Inl p
      | Inr (w1, out) \<Rightarrow>
          (case Start X rest w1 of
             Inl p \<Rightarrow> Inl p
           | Inr (w2, outs, r) \<Rightarrow> Inr (w2, out # outs, r)))"

section \<open>Choosing a subscription\<close>

text \<open>
  \<^verbatim>\<open>azure/context.go\<close>. The type \<^verbatim>\<open>subscription.Model\<close> belongs to the Azure SDK;
  \<^verbatim>\<open>chooseSub\<close> reads two of its fields, both pointers to strings. The selector of the
  helper is a parameter. The result holds the lines printed on standard output, the
  calls made to the selector (message and options), and how the call ended: it returned,
  it left the process with \<^verbatim>\<open>os.Exit\<close>, or it panicked.
\<close>

record Model =
  DisplayName :: "string option"
  SubscriptionID :: "string option"

datatype error = InterruptErr | OtherError string

datatype ended = Return string "error option" | Exit int | Panicked panic

fun options_of :: "Model list \<Rightarrow> string list \<Rightarrow> string list option" where
  \<comment> \<open>the loop that builds \<^verbatim>\<open>options\<close>; \<open>None\<close> when a pointer is nil\<close>
  "options_of [] options = Some options"
| "options_of (sub # subs) options =
     (case DisplayName sub of
        None \<Rightarrow> None
      | Some d \<Rightarrow>
          (case SubscriptionID sub of
             None \<Rightarrow> None
           | Some i \<Rightarrow> options_of subs (options @ [d @ ''('' @ i @ '')''])))"

definition chooseSub :: "(string \<Rightarrow> string list \<Rightarrow> int \<times> error option) \<Rightarrow> Model list
    \<Rightarrow> string list \<times> (string \<times> string list) list \<times> ended" where
  "chooseSub userSelect subs =
     (if length subs = 1 then
        (let sub = subs ! 0 in
         case DisplayName sub of
           None \<Rightarrow> ([], [], Panicked NilDereference)
         | Some d \<Rightarrow>
             (case SubscriptionID sub of
                None \<Rightarrow> ([], [], Panicked NilDereference)
              | Some i \<Rightarrow>
                  ([''Using only available subscription : '' @ d @ ''('' @ i @ '')''], [],
                   Return i None)))
      else
        case options_of subs [] of
          None \<Rightarrow> ([], [], Panicked NilDereference)
        | Some options \<Rightarrow>
            (let (selected, err) = userSelect ''Select a subscription ID'' options;
                 asked = [(''Select a subscription ID'', options)]
             in case err of
               Some e \<Rightarrow>
                 if e = InterruptErr then ([], asked, Exit 0)
                 else ([], asked, Return [] (Some e))
             | None \<Rightarrow>
                 if 0 \<le> selected \<and> selected < int (length subs) then
                   (case SubscriptionID (subs ! nat selected) of
                      None \<Rightarrow> ([], asked, Panicked NilDereference)
                    | Some i \<Rightarrow> ([], asked, Return i None))
                 else ([], asked, Panicked IndexOutOfRange)))"

section \<open>Notions used to state the properties\<close>

text \<open>A pointer is live in a store when it is the index of an object of the store.\<close>

definition live :: "'sp list \<Rightarrow> nat option \<Rightarrow> bool" where
  "live h p = (case p of None \<Rightarrow> False | Some a \<Rightarrow> a < length h)"

text \<open>
  A writer is well formed when every identifier of its ordered list has an entry in the
  map and every stored event points to a live spinner. Every writer reached from an
  empty one is.
\<close>

definition well_formed :: "'sp ttyWriter \<Rightarrow> bool" where
  "well_formed w \<longleftrightarrow>
     list_all (\<lambda>v. map_of (events w) v \<noteq> None) (eventIDs w) \<and>
     list_all (\<lambda>(k, e). live (spinners w) (spinner e)) (events w)"

text \<open>
  A writer is consistent when, moreover, the ordered list holds the keys of the map, each
  once, and every event is stored under its own identifier.
\<close>

definition consistent :: "'sp ttyWriter \<Rightarrow> bool" where
  "consistent w \<longleftrightarrow>
     map fst (events w) = eventIDs w \<and> distinct (eventIDs w) \<and>
     list_all (\<lambda>(k, e). ID e = k) (events w) \<and> well_formed w"

text \<open>The identifiers of a sequence, each once, in the order in which they first occur.\<close>

fun firstSeen :: "string list \<Rightarrow> string list" where
  "firstSeen [] = []"
| "firstSeen (x # xs) = x # filter (\<lambda>y. y \<noteq> x) (firstSeen xs)"

text \<open>
  The calls that a writer receives, in the order in which the lock admits them: a
  producer records an event, or the loop repaints. \<open>run\<close> makes them one after the
  other and collects what the repaints write.
\<close>

datatype call = Record int Event | Repaint int int

fun recorded :: "call list \<Rightarrow> string list" where
  "recorded [] = []"
| "recorded (Record now e # cs) = ID e # recorded cs"
| "recorded (Repaint now width # cs) = recorded cs"

fun run :: "'sp externals \<Rightarrow> call list \<Rightarrow> 'sp ttyWriter \<Rightarrow> panic + 'sp ttyWriter \<times> written list list" where
  "run X [] w = Inr (w, [])"
| "run X (Record now e # cs) w =
     (case ttyWriter_Event X now e w of
        Inl p \<Rightarrow> Inl p
      | Inr w1 \<Rightarrow> run X cs w1)"
| "run X (Repaint now width # cs) w =
     (case ttyWriter_print X now width w of
        Inl p \<Rightarrow> Inl p
      | Inr (w1, out) \<Rightarrow>
          (case run X cs w1 of
             Inl p \<Rightarrow> Inl p
           | Inr (w2, outs) \<Rightarrow> Inr (w2, out # outs)))"

text \<open>
  The line of an event as the layout describes it, for a given frame of the spinner:
  the left segment with the identifier and the text padded to the shared width \<open>P\<close>, and
  the timer aligned to the right.
\<close>

definition left_segment :: "string \<Rightarrow> Event \<Rightarrow> int \<Rightarrow> string" where
  "left_segment frame e P =
     '' '' @ frame @ '' '' @ (ID e @ '' '' @ Text e)
       @ replicate (nat (P - int (length (ID e @ '' '' @ Text e)))) (CHR '' '')
       @ '' '' @ StatusText e"

definition timer_of :: "'sp externals \<Rightarrow> int \<Rightarrow> Event \<Rightarrow> string" where
  "timer_of X now e =
     Sprintf_seconds X (time_Sub (if Status e = Working then now else endTime e) (startTime e))"

definition color_of :: "EventStatus \<Rightarrow> color" where
  "color_of s = (case s of Working \<Rightarrow> WhiteF | Done \<Rightarrow> BlueF | Error \<Rightarrow> RedF)"

definition line_of :: "'sp externals \<Rightarrow> int \<Rightarrow> int \<Rightarrow> int \<Rightarrow> Event \<Rightarrow> string \<Rightarrow> styled" where
  "line_of X now width P e frame =
     Apply (align (left_segment frame e P) (timer_of X now e) width) (color_of (Status e))"

text \<open>The lines of the events among what a repaint wrote.\<close>

fun event_lines :: "written list \<Rightarrow> styled list" where
  "event_lines [] = []"
| "event_lines (Fprint s # out) = s # event_lines out"
| "event_lines (x # out) = event_lines out"

text \<open>
  Data for the closed instances below: parameters in which the state of a spinner is
  whether it was stopped and a duration is shown in tenths of a second, an event as a
  producer passes it (its unexported fields are zero), and a writer that has seen no
  event and has painted nothing (the constructor of the writer is not in the verified
  files).
\<close>

definition X0 :: "bool externals" where
  "X0 = \<lparr>newSpinner = (\<lambda>now. False), spinner_Stop = (\<lambda>s. True),
          spinner_String = (\<lambda>now s. (if s then ''-'' else ''*'', s)),
          Sprintf_seconds = (\<lambda>d. Sprintf_d (d div 1000000000) @ ''.''
                                    @ Sprintf_d ((d div 100000000) mod 10) @ ''s'' @ [CHR 0x0A])\<rparr>"

definition produced :: "string \<Rightarrow> EventStatus \<Rightarrow> string \<Rightarrow> string \<Rightarrow> Event" where
  "produced i s t st = \<lparr>ID = i, Text = t, Status = s, StatusText = st,
                         startTime = 0, endTime = 0, spinner = None\<rparr>"

definition emptyWriter :: "'sp ttyWriter" where
  "emptyWriter = \<lparr>events = [], eventIDs = [], repeated = False, numLines = 0, spinners = []\<rparr>"

text \<open>
  Two writers as recording leaves them: one with a single event that is \<open>Done\<close> and was
  painted once, one with the events \<open>web\<close> (\<open>Done\<close>) and \<open>database\<close> (\<open>Working\<close>)
  painted once.
\<close>

definition one_done :: "bool ttyWriter" where
  "one_done =
     \<lparr>events = [(''a'', (produced ''a'' Done ''t'' ''ok'')
                          \<lparr>startTime := 1000000000, endTime := 2000000000, spinner := Some 0\<rparr>)],
      eventIDs = [''a''], repeated = True, numLines = 1, spinners = [True]\<rparr>"

definition web_database :: "bool ttyWriter" where
  "web_database =
     \<lparr>events = [(''web'', (produced ''web'' Done ''started'' ''ok'')
                            \<lparr>startTime := 1000000000, endTime := 3000000000, spinner := Some 0\<rparr>),
                (''database'', (produced ''database'' Working ''pulling'' ''50%'')
                                 \<lparr>startTime := 2000000000, spinner := Some 1\<rparr>)],
      eventIDs = [''web'', ''database''], repeated = True, numLines = 2,
      spinners = [True, False]\<rparr>"

section \<open>Properties\<close>

subsection \<open>Joining the two segments of a line\<close>

lemma RuneCountInString_ascii:
  "list_all (\<lambda>c. (of_char c :: nat) < 0x80) s \<Longrightarrow> RuneCountInString s = length s"
  by (induction s) (simp_all add: runeSize_def)

lemma Sprintf_left_padded:
  "\<not> tooLarge n \<Longrightarrow>
   Sprintf_left l n = l @ replicate (nat (\<bar>n\<bar> - int (RuneCountInString l))) (CHR '' '')"
  by (simp add: Sprintf_left_def)

lemma align_keeps_both:
  "\<exists>pre pad. align l r W = pre @ l @ replicate pad (CHR '' '') @ '' '' @ r"
proof (cases "tooLarge (W - int (length r) - 1)")
  case True
  then have "align l r W = ''%!(BADWIDTH)'' @ l @ replicate 0 (CHR '' '') @ '' '' @ r"
    by (simp add: align_def Sprintf_left_def)
  then show ?thesis by blast
next
  case False
  then have "align l r W = [] @ l
      @ replicate (nat (\<bar>W - int (length r) - 1\<bar> - int (RuneCountInString l))) (CHR '' '')
      @ '' '' @ r"
    by (simp add: align_def Sprintf_left_def)
  then show ?thesis by blast
qed

text \<open>
  Claim C5, as the code has it. For every left segment \<open>l\<close>, right segment \<open>r\<close> and width
  \<open>W\<close>, \<open>align\<close> keeps \<open>l\<close> and \<open>r\<close> whole: the result is \<open>l\<close>, then spaces, one
  separating space and \<open>r\<close> (behind the marker of \<^verbatim>\<open>fmt\<close> when the field width is
  refused). When the field width \<open>W - len(r) - 1\<close> lies between \<open>0\<close> and \<open>10\<^sup>6\<close>: if
  \<open>l\<close>, measured in runes as \<^verbatim>\<open>fmt\<close> measures it, fits in the field, then \<open>r\<close> ends
  exactly at column \<open>W\<close>; and if \<open>l\<close> reaches or exceeds the field, the result is \<open>l\<close>,
  one space and \<open>r\<close>.
\<close>

theorem align_right_aligned:
  "(\<exists>pre pad. align l r W = pre @ l @ replicate pad (CHR '' '') @ '' '' @ r) \<and>
   (0 \<le> W - int (length r) - 1 \<and> W - int (length r) - 1 \<le> 1000000 \<longrightarrow>
      (int (RuneCountInString l) \<le> W - int (length r) - 1 \<longrightarrow>
         (\<exists>pad. align l r W = l @ replicate pad (CHR '' '') @ '' '' @ r \<and>
                int (RuneCountInString l) + int pad + 1 + int (length r) = W)) \<and>
      (W - int (length r) - 1 \<le> int (RuneCountInString l) \<longrightarrow> align l r W = l @ '' '' @ r))"
proof (intro conjI impI)
  show "\<exists>pre pad. align l r W = pre @ l @ replicate pad (CHR '' '') @ '' '' @ r"
    by (rule align_keeps_both)
next
  assume b: "0 \<le> W - int (length r) - 1 \<and> W - int (length r) - 1 \<le> 1000000"
    and fits: "int (RuneCountInString l) \<le> W - int (length r) - 1"
  let ?pad = "nat (W - int (length r) - 1 - int (RuneCountInString l))"
  from b have "\<not> tooLarge (W - int (length r) - 1)" by (simp add: tooLarge_def)
  with b have "align l r W = l @ replicate ?pad (CHR '' '') @ '' '' @ r"
    by (simp add: align_def Sprintf_left_padded)
  moreover from fits have "int (RuneCountInString l) + int ?pad + 1 + int (length r) = W"
    by simp
  ultimately show "\<exists>pad. align l r W = l @ replicate pad (CHR '' '') @ '' '' @ r \<and>
      int (RuneCountInString l) + int pad + 1 + int (length r) = W"
    by blast
next
  assume b: "0 \<le> W - int (length r) - 1 \<and> W - int (length r) - 1 \<le> 1000000"
    and over: "W - int (length r) - 1 \<le> int (RuneCountInString l)"
  from b have "\<not> tooLarge (W - int (length r) - 1)" by (simp add: tooLarge_def)
  with b over show "align l r W = l @ '' '' @ r"
    by (simp add: align_def Sprintf_left_padded)
qed

theorem align_right_aligned_witness:
  "0 \<le> 10 - int (length ''1.0s'') - 1 \<and> 10 - int (length ''1.0s'') - 1 \<le> 1000000 \<and>
   int (RuneCountInString ''ab'') \<le> 10 - int (length ''1.0s'') - 1 \<and>
   10 - int (length ''1.0s'') - 1 \<le> int (RuneCountInString ''abcdefgh'') \<and>
   align ''ab'' ''1.0s'' 10 = ''ab    1.0s'' \<and> align ''abcdefgh'' ''1.0s'' 10 = ''abcdefgh 1.0s''"
  using align_right_aligned [of "''ab''" "''1.0s''" 10]
    align_right_aligned [of "''abcdefgh''" "''1.0s''" 10]
  by (simp add: runeSize_def numeral_3_eq_3)

text \<open>
  Claim C5 as it is written fails for a narrow terminal. With \<open>W = 0\<close> the field width is
  negative, \<^verbatim>\<open>fmt\<close> pads to its absolute value, and a left segment that exceeds
  \<open>W - len(r) - 1\<close> is followed by two spaces. For a width beyond \<open>10\<^sup>6\<close> the right
  segment is not aligned at \<open>W\<close>.
\<close>

theorem align_narrow_counterexample:
  "0 - int (length ''s'') - 1 \<le> int (length ''a'') \<and>
   align ''a'' ''s'' 0 \<noteq> ''a'' @ '' '' @ ''s'' \<and>
   align ''a'' ''s'' 0 = ''a  s'' \<and>
   align [] ''s'' 2000000 = ''%!(BADWIDTH) s''"
  by (simp add: align_def Sprintf_left_def tooLarge_def runeSize_def)

subsection \<open>The line of one event\<close>

lemma concat_replicate_single: "concat (replicate n [c]) = replicate n c"
  by (induction n) simp_all

lemma String_at_live:
  "live h p \<Longrightarrow> \<exists>frame h1. String_at X now p h = Inr (frame, h1) \<and> length h1 = length h"
  by (cases p) (auto simp: live_def String_at_def split: prod.splits)

lemma String_at_not_live: "\<not> live h p \<Longrightarrow> String_at X now p h = Inl NilDereference"
  by (cases p) (auto simp: live_def String_at_def)

lemma lineText_layout:
  "lineText X now e width P h =
     (case String_at X now (spinner e) h of
        Inl p \<Rightarrow> Inl p
      | Inr (frame, h1) \<Rightarrow> Inr (line_of X now width P e frame, h1))"
proof (cases "String_at X now (spinner e) h")
  case (Inl p)
  then show ?thesis by (simp add: lineText_def)
next
  case (Inr fh)
  obtain frame h1 where fh: "fh = (frame, h1)" by (cases fh)
  have col: "(if Status e = Error then RedF else if Status e = Done then BlueF else WhiteF)
      = color_of (Status e)"
    by (cases "Status e") (simp_all add: color_of_def)
  show ?thesis
    using Inr fh col
    by (simp add: lineText_def line_of_def left_segment_def timer_of_def strings_Repeat_def
        concat_replicate_single Let_def)
qed



subsection \<open>Choosing a subscription\<close>

lemma chooseSub_one:
  "chooseSub userSelect [sub] =
     (case DisplayName sub of
        None \<Rightarrow> ([], [], Panicked NilDereference)
      | Some d \<Rightarrow>
          (case SubscriptionID sub of
             None \<Rightarrow> ([], [], Panicked NilDereference)
           | Some i \<Rightarrow>
               ([''Using only available subscription : '' @ d @ ''('' @ i @ '')''], [],
                Return i None)))"
  by (simp add: chooseSub_def)

lemma chooseSub_asks:
  assumes "length subs \<noteq> 1" and "options_of subs [] = Some options"
  shows "fst (snd (chooseSub userSelect subs)) = [(''Select a subscription ID'', options)]"
proof -
  obtain selected err where u: "userSelect ''Select a subscription ID'' options = (selected, err)"
    by (cases "userSelect ''Select a subscription ID'' options")
  show ?thesis
    using assms u
    by (simp add: chooseSub_def Let_def split: option.splits)
qed

text \<open>
  Claim C10, as the code has it. For a list of one subscription whose display name and
  identifier are set, \<open>chooseSub\<close> prints the line that names it and returns its
  identifier with a nil error, and the selector is not called. No call on a list of one
  subscription reaches the selector. The selector is called whenever the list does not
  hold exactly one subscription, an empty list included, once the options are built.
\<close>

theorem chooseSub_single:
  "(DisplayName sub = Some d \<and> SubscriptionID sub = Some i \<longrightarrow>
      chooseSub userSelect [sub] =
        ([''Using only available subscription : '' @ d @ ''('' @ i @ '')''], [], Return i None)) \<and>
   (fst (snd (chooseSub userSelect subs)) \<noteq> [] \<longrightarrow> length subs \<noteq> 1) \<and>
   (length subs \<noteq> 1 \<and> options_of subs [] = Some options \<longrightarrow>
      fst (snd (chooseSub userSelect subs)) = [(''Select a subscription ID'', options)])"
proof (intro conjI impI)
  assume "DisplayName sub = Some d \<and> SubscriptionID sub = Some i"
  then show "chooseSub userSelect [sub] =
        ([''Using only available subscription : '' @ d @ ''('' @ i @ '')''], [], Return i None)"
    by (simp add: chooseSub_one)
next
  assume asked: "fst (snd (chooseSub userSelect subs)) \<noteq> []"
  show "length subs \<noteq> 1"
  proof
    assume "length subs = 1"
    then obtain sub where "subs = [sub]"
      by (cases subs) simp_all
    with asked show False
      by (simp add: chooseSub_one split: option.splits)
  qed
next
  assume "length subs \<noteq> 1 \<and> options_of subs [] = Some options"
  then show "fst (snd (chooseSub userSelect subs)) = [(''Select a subscription ID'', options)]"
    by (simp add: chooseSub_asks)
qed

theorem chooseSub_single_witness:
  "DisplayName \<lparr>DisplayName = Some ''Pay'', SubscriptionID = Some ''123''\<rparr> = Some ''Pay'' \<and>
   SubscriptionID \<lparr>DisplayName = Some ''Pay'', SubscriptionID = Some ''123''\<rparr> = Some ''123'' \<and>
   chooseSub (\<lambda>m os. (1, None)) [\<lparr>DisplayName = Some ''Pay'', SubscriptionID = Some ''123''\<rparr>] =
     ([''Using only available subscription : Pay(123)''], [], Return ''123'' None) \<and>
   length ([] :: Model list) \<noteq> 1 \<and> options_of [] [] = Some [] \<and>
   fst (snd (chooseSub (\<lambda>m os. (1, None)) [])) = [(''Select a subscription ID'', [])]"
  using chooseSub_single [of "\<lparr>DisplayName = Some ''Pay'', SubscriptionID = Some ''123''\<rparr>"
      "''Pay''" "''123''" "\<lambda>m os. (1, None)" "[]" "[]"]
  by simp

text \<open>
  Claim C10 as it is written fails on the empty list: the prompt is consulted although
  fewer than two subscriptions exist (and the index that the selector returns is then out
  of range). A list of one subscription with a nil display name does not return: the
  dereference panics.
\<close>

theorem chooseSub_empty_counterexample:
  "chooseSub (\<lambda>m os. (0, None)) [] =
     ([], [(''Select a subscription ID'', [])], Panicked IndexOutOfRange) \<and>
   chooseSub (\<lambda>m os. (0, None)) [\<lparr>DisplayName = None, SubscriptionID = Some ''123''\<rparr>] =
     ([], [], Panicked NilDereference)"
  by (simp add: chooseSub_def)

subsection \<open>Recording an event\<close>

lemma contains_set: "contains ar needle \<longleftrightarrow> needle \<in> set ar"
  by (induction ar) auto

lemma Event_stop_live:
  "spinner ev = Some a \<Longrightarrow> a < length h \<Longrightarrow>
   Event_stop X now ev h = Inr (ev\<lparr>endTime := now\<rparr>, h[a := spinner_Stop X (h ! a)])"
  by (simp add: Event_stop_def)


lemma ttyWriter_Event_seen:
  assumes "map_of (events w) (ID e) = Some ev"
  shows "ttyWriter_Event X now e w =
     (case (if Status ev \<noteq> Done \<and> Status e = Done
            then Event_stop X now ev (spinners w) else Inr (ev, spinners w)) of
        Inl p \<Rightarrow> Inl p
      | Inr (ev1, h) \<Rightarrow>
          Inr (w\<lparr>eventIDs := (if contains (eventIDs w) (ID e) then eventIDs w else eventIDs w @ [ID e]),
                 events := AList.update (ID e)
                   (ev1\<lparr>Status := Status e, Text := Text e, StatusText := StatusText e\<rparr>) (events w),
                 spinners := h\<rparr>))"
  using assms
  by (auto simp: ttyWriter_Event_def Let_def split: sum.splits)

lemma ttyWriter_Event_unseen:
  assumes "map_of (events w) (ID e) = None"
  shows "ttyWriter_Event X now e w =
     Inr (w\<lparr>eventIDs := (if contains (eventIDs w) (ID e) then eventIDs w else eventIDs w @ [ID e]),
            events := AList.update (ID e)
              (e\<lparr>startTime := now, spinner := Some (length (spinners w))\<rparr>) (events w),
            spinners := spinners w @ [newSpinner X now]\<rparr>)"
  using assms
  by (auto simp: ttyWriter_Event_def Let_def)



text \<open>
  Claim C1, as the code has it. A call of \<open>Event\<close> that finds the stored event
  \<open>Done\<close>, whatever status it carries, or that carries \<open>Working\<close>, changes neither the
  end time nor any spinner. A call that carries \<open>Done\<close> and finds the stored event
  \<open>Working\<close> sets the end time to the time of the call and stops the event's spinner.
\<close>

theorem Event_freeze:
  assumes "map_of (events w) (ID e) = Some ev"
  shows "(Status ev = Done \<or> Status e = Working \<longrightarrow>
      (\<exists>w1 ev1. ttyWriter_Event X now e w = Inr w1 \<and> map_of (events w1) (ID e) = Some ev1 \<and>
         endTime ev1 = endTime ev \<and> spinner ev1 = spinner ev \<and> spinners w1 = spinners w)) \<and>
   (Status ev = Working \<and> Status e = Done \<and> spinner ev = Some a \<and> a < length (spinners w) \<longrightarrow>
      (\<exists>w1 ev1. ttyWriter_Event X now e w = Inr w1 \<and> map_of (events w1) (ID e) = Some ev1 \<and>
         endTime ev1 = now \<and> spinner ev1 = spinner ev \<and>
         spinners w1 = (spinners w)[a := spinner_Stop X (spinners w ! a)]))"
proof (intro conjI impI)
  assume "Status ev = Done \<or> Status e = Working"
  then have n: "(Status ev \<noteq> Done \<and> Status e = Done) = False" by auto
  show "\<exists>w1 ev1. ttyWriter_Event X now e w = Inr w1 \<and> map_of (events w1) (ID e) = Some ev1 \<and>
         endTime ev1 = endTime ev \<and> spinner ev1 = spinner ev \<and> spinners w1 = spinners w"
    by (simp add: ttyWriter_Event_seen [OF assms] update_conv' n)
next
  assume a: "Status ev = Working \<and> Status e = Done \<and> spinner ev = Some a \<and> a < length (spinners w)"
  then show "\<exists>w1 ev1. ttyWriter_Event X now e w = Inr w1 \<and> map_of (events w1) (ID e) = Some ev1 \<and>
         endTime ev1 = now \<and> spinner ev1 = spinner ev \<and>
         spinners w1 = (spinners w)[a := spinner_Stop X (spinners w ! a)]"
    by (simp add: ttyWriter_Event_seen [OF assms] update_conv' Event_stop_live)
qed

theorem Event_freeze_witness:
  "map_of [(''a'', (produced ''a'' Working ''t'' [])\<lparr>startTime := 1, spinner := Some 0\<rparr>)]
       (ID (produced ''a'' Done ''u'' ''ok''))
     = Some ((produced ''a'' Working ''t'' [])\<lparr>startTime := 1, spinner := Some 0\<rparr>) \<and>
   Status ((produced ''a'' Working ''t'' [])\<lparr>startTime := 1, spinner := Some 0\<rparr>) = Working \<and>
   Status (produced ''a'' Done ''u'' ''ok'') = Done \<and>
   spinner ((produced ''a'' Working ''t'' [])\<lparr>startTime := 1, spinner := Some 0\<rparr>) = Some 0 \<and>
   0 < length [False] \<and>
   (\<exists>w1 ev1. ttyWriter_Event X0 5 (produced ''a'' Done ''u'' ''ok'')
       \<lparr>events = [(''a'', (produced ''a'' Working ''t'' [])\<lparr>startTime := 1, spinner := Some 0\<rparr>)],
        eventIDs = [''a''], repeated = False, numLines = 0, spinners = [False]\<rparr> = Inr w1 \<and>
      map_of (events w1) ''a'' = Some ev1 \<and> endTime ev1 = 5 \<and> spinners w1 = [True]) \<and>
   map_of [(''a'', (produced ''a'' Done ''t'' [])\<lparr>startTime := 1, endTime := 2, spinner := Some 0\<rparr>)]
       (ID (produced ''a'' Error ''u'' ''failed''))
     = Some ((produced ''a'' Done ''t'' [])\<lparr>startTime := 1, endTime := 2, spinner := Some 0\<rparr>) \<and>
   Status ((produced ''a'' Done ''t'' [])\<lparr>startTime := 1, endTime := 2, spinner := Some 0\<rparr>) = Done \<and>
   (\<exists>w1 ev1. ttyWriter_Event X0 5 (produced ''a'' Error ''u'' ''failed'')
       \<lparr>events = [(''a'', (produced ''a'' Done ''t'' [])
                            \<lparr>startTime := 1, endTime := 2, spinner := Some 0\<rparr>)],
        eventIDs = [''a''], repeated = False, numLines = 0, spinners = [True]\<rparr> = Inr w1 \<and>
      map_of (events w1) ''a'' = Some ev1 \<and> endTime ev1 = 2 \<and> spinners w1 = [True])"
proof -
  let ?ev = "(produced ''a'' Working ''t'' [])\<lparr>startTime := 1, spinner := Some 0\<rparr>"
  let ?e = "produced ''a'' Done ''u'' ''ok''"
  let ?w = "\<lparr>events = [(''a'', ?ev)], eventIDs = [''a''], repeated = False, numLines = 0,
             spinners = [False]\<rparr>"
  have stored: "map_of (events ?w) (ID ?e) = Some ?ev"
    by (simp add: produced_def)
  have h: "Status ?ev = Working \<and> Status ?e = Done \<and> spinner ?ev = Some 0 \<and> 0 < length (spinners ?w)"
    by (simp add: produced_def)
  from Event_freeze [OF stored, where a = 0 and X = X0 and now = 5] h
  obtain w1 ev1 where "ttyWriter_Event X0 5 ?e ?w = Inr w1" "map_of (events w1) (ID ?e) = Some ev1"
      "endTime ev1 = 5" "spinners w1 = (spinners ?w)[0 := spinner_Stop X0 (spinners ?w ! 0)]"
    by blast
  then have "ttyWriter_Event X0 5 ?e ?w = Inr w1 \<and> map_of (events w1) ''a'' = Some ev1 \<and>
         endTime ev1 = 5 \<and> spinners w1 = [True]"
    by (simp add: produced_def X0_def)
  then have "\<exists>w1 ev1. ttyWriter_Event X0 5 ?e ?w = Inr w1 \<and> map_of (events w1) ''a'' = Some ev1 \<and>
         endTime ev1 = 5 \<and> spinners w1 = [True]"
    by blast
  moreover
  let ?ev' = "(produced ''a'' Done ''t'' [])\<lparr>startTime := 1, endTime := 2, spinner := Some 0\<rparr>"
  let ?e' = "produced ''a'' Error ''u'' ''failed''"
  let ?w' = "\<lparr>events = [(''a'', ?ev')], eventIDs = [''a''], repeated = False, numLines = 0,
              spinners = [True]\<rparr>"
  have stored': "map_of (events ?w') (ID ?e') = Some ?ev'"
    by (simp add: produced_def)
  have h': "Status ?ev' = Done"
    by (simp add: produced_def)
  from Event_freeze [OF stored', where X = X0 and now = 5] h'
  obtain w2 ev2 where "ttyWriter_Event X0 5 ?e' ?w' = Inr w2" "map_of (events w2) (ID ?e') = Some ev2"
      "endTime ev2 = endTime ?ev'" "spinners w2 = spinners ?w'"
    by blast
  then have "ttyWriter_Event X0 5 ?e' ?w' = Inr w2 \<and> map_of (events w2) ''a'' = Some ev2 \<and>
         endTime ev2 = 2 \<and> spinners w2 = [True]"
    by (simp add: produced_def)
  then have "\<exists>w1 ev1. ttyWriter_Event X0 5 ?e' ?w' = Inr w1 \<and> map_of (events w1) ''a'' = Some ev1 \<and>
         endTime ev1 = 2 \<and> spinners w1 = [True]"
    by blast
  ultimately show ?thesis
    using stored h stored' h' by simp
qed

text \<open>
  Claim C1 as it is written fails: the test of \<open>Event\<close> looks at the stored status of
  the moment, so an event that was \<open>Done\<close>, was recorded as \<open>Working\<close> again and then as
  \<open>Done\<close> has its end time set a second time (here \<open>2\<close>, then \<open>4\<close>).
\<close>

theorem Event_refreeze_counterexample:
  "run X0 [Record 1 (produced ''a'' Working ''t'' []), Record 2 (produced ''a'' Done ''t'' ''ok'')]
       emptyWriter
     = Inr (\<lparr>events = [(''a'', (produced ''a'' Done ''t'' ''ok'')
                                  \<lparr>startTime := 1, endTime := 2, spinner := Some 0\<rparr>)],
             eventIDs = [''a''], repeated = False, numLines = 0, spinners = [True]\<rparr>, []) \<and>
   run X0 [Record 1 (produced ''a'' Working ''t'' []), Record 2 (produced ''a'' Done ''t'' ''ok''),
           Record 3 (produced ''a'' Working ''t'' []), Record 4 (produced ''a'' Done ''t'' ''ok'')]
       emptyWriter
     = Inr (\<lparr>events = [(''a'', (produced ''a'' Done ''t'' ''ok'')
                                  \<lparr>startTime := 1, endTime := 4, spinner := Some 0\<rparr>)],
             eventIDs = [''a''], repeated = False, numLines = 0, spinners = [True]\<rparr>, [])"
  by code_simp

subsection \<open>What a repaint writes\<close>

lemma live_length: "length h1 = length h \<Longrightarrow> live h1 p = live h p"
  by (cases p) (simp_all add: live_def)

lemma printLines_lines:
  "printLines X now width P evs ids h = Inr (ls, h1) \<Longrightarrow>
   list_all2 (\<lambda>line v. \<exists>frame. line = line_of X now width P (index evs v) frame) ls ids \<and>
   length h1 = length h"
proof (induction ids arbitrary: h ls)
  case Nil
  then show ?case by simp
next
  case (Cons v vs)
  from Cons.prems obtain frame h2 ls2 where
    s: "String_at X now (spinner (index evs v)) h = Inr (frame, h2)" and
    r: "printLines X now width P evs vs h2 = Inr (ls2, h1)" and
    l: "ls = line_of X now width P (index evs v) frame # ls2"
    by (auto simp: lineText_layout split: sum.splits)
  have "length h2 = length h"
  proof (cases "live h (spinner (index evs v))")
    case True
    with s show ?thesis
      using String_at_live [of h "spinner (index evs v)" X now] by auto
  next
    case False
    with s show ?thesis by (simp add: String_at_not_live)
  qed
  with Cons.IH [OF r] l show ?case by auto
qed

lemma printLines_total:
  "list_all (\<lambda>v. live h (spinner (index evs v))) ids \<Longrightarrow>
   \<exists>ls h1. printLines X now width P evs ids h = Inr (ls, h1)"
proof (induction ids arbitrary: h)
  case Nil
  then show ?case by simp
next
  case (Cons v vs)
  then have "live h (spinner (index evs v))" by simp
  then obtain frame h2 where
    s: "String_at X now (spinner (index evs v)) h = Inr (frame, h2)" and len: "length h2 = length h"
    using String_at_live [of h "spinner (index evs v)" X now] by blast
  from Cons.prems len have "list_all (\<lambda>v. live h2 (spinner (index evs v))) vs"
    by (simp add: live_length [OF len])
  from Cons.IH [OF this] obtain ls h1 where "printLines X now width P evs vs h2 = Inr (ls, h1)"
    by blast
  with s show ?case by (simp add: lineText_layout)
qed

lemma event_lines_out:
  "event_lines ([ANSI b, Hide, Fprintln header] @ map Fprint ls @ [Show]) = ls"
  by (induction ls) simp_all

lemma ttyWriter_print_result:
  assumes "eventIDs w \<noteq> []" and "ttyWriter_print X now width w = Inr (w1, out)"
  shows "\<exists>ls h. printLines X now width (statusPadding_of (events w) (eventIDs w)) (events w)
             (eventIDs w) (spinners w) = Inr (ls, h) \<and>
           w1 = w\<lparr>repeated := True, numLines := int (length ls), spinners := h\<rparr> \<and>
           out = [ANSI (replicate (nat (numLines w + 1)) (Up 1)
                         @ (if \<not> repeated w then [Down 1] else []) @ [Column 0]),
                  Hide,
                  Fprintln (if numLines w \<noteq> 0 \<and> numDone (events w) = numLines w
                            then Apply (''[+] Running '' @ Sprintf_d (numDone (events w)) @ ''/''
                                          @ Sprintf_d (numLines w)) BlueF
                            else Plain (''[+] Running '' @ Sprintf_d (numDone (events w)) @ ''/''
                                          @ Sprintf_d (numLines w)))]
                 @ map Fprint ls @ [Show]"
  using assms
  by (auto simp: ttyWriter_print_def Let_def split: sum.splits)

lemma well_formed_live:
  assumes "well_formed w"
  shows "list_all (\<lambda>v. live (spinners w) (spinner (index (events w) v))) (eventIDs w)"
proof -
  have "live (spinners w) (spinner (index (events w) v))" if "v \<in> set (eventIDs w)" for v
  proof -
    from assms that obtain e where e: "map_of (events w) v = Some e"
      by (auto simp: well_formed_def list_all_iff)
    then have "(v, e) \<in> set (events w)" by (rule map_of_SomeD)
    with assms have "live (spinners w) (spinner e)"
      by (auto simp: well_formed_def list_all_iff)
    with e show ?thesis by (simp add: index_def)
  qed
  then show ?thesis by (simp add: list_all_iff)
qed

lemma ttyWriter_print_total:
  assumes "well_formed w"
  shows "\<exists>w1 out. ttyWriter_print X now width w = Inr (w1, out)"
proof -
  from printLines_total [OF well_formed_live [OF assms]]
  obtain ls h where "printLines X now width (statusPadding_of (events w) (eventIDs w)) (events w)
      (eventIDs w) (spinners w) = Inr (ls, h)"
    by blast
  then show ?thesis
    by (simp add: ttyWriter_print_def Let_def)
qed

lemma numDone_count:
  "numDone evs = int (length (filter (\<lambda>(k, e). Status e = Done) evs))"
  by (induction evs rule: numDone.induct) simp_all

lemma ttyWriter_Event_numLines:
  "ttyWriter_Event X now e w = Inr w1 \<Longrightarrow> numLines w1 = numLines w \<and> repeated w1 = repeated w"
  by (cases "map_of (events w) (ID e)")
    (auto simp: ttyWriter_Event_seen ttyWriter_Event_unseen split: sum.splits if_splits)

text \<open>
  Claim C3. A repaint of a writer that knows at least one event returns when the writer
  is well formed, and what it writes starts with the cursor movements, the code that hides
  the cursor and the header \<^verbatim>\<open>[+] Running d/t\<close>: \<open>d\<close> is the number of stored events
  whose status is \<open>Done\<close> and \<open>t\<close> is the stored count \<open>numLines\<close>, not the number of
  known events. The header has the colour of the complete state exactly when \<open>d = t\<close> and
  \<open>t\<close> is not zero. The repaint stores the number of lines it wrote in \<open>numLines\<close>, and
  recording an event does not change that count: \<open>t\<close> is the number of lines of the
  previous repaint.
\<close>

theorem print_header:
  assumes "eventIDs w \<noteq> []"
  shows "(well_formed w \<longrightarrow> (\<exists>w1 out. ttyWriter_print X now width w = Inr (w1, out))) \<and>
   (ttyWriter_print X now width w = Inr (w1, out) \<longrightarrow>
      (\<exists>moves. out =
         [ANSI moves, Hide,
          Fprintln (if numDone (events w) = numLines w \<and> numLines w \<noteq> 0
                    then Apply (''[+] Running '' @ Sprintf_d (numDone (events w)) @ ''/''
                                  @ Sprintf_d (numLines w)) BlueF
                    else Plain (''[+] Running '' @ Sprintf_d (numDone (events w)) @ ''/''
                                  @ Sprintf_d (numLines w)))]
         @ map Fprint (event_lines out) @ [Show]) \<and>
      numDone (events w) = int (length (filter (\<lambda>(k, e). Status e = Done) (events w))) \<and>
      numLines w1 = int (length (event_lines out))) \<and>
   (ttyWriter_Event X t e w = Inr w2 \<longrightarrow> numLines w2 = numLines w)"
proof (intro conjI impI)
  assume "well_formed w"
  then show "\<exists>w1 out. ttyWriter_print X now width w = Inr (w1, out)"
    by (rule ttyWriter_print_total)
next
  assume "ttyWriter_print X now width w = Inr (w1, out)"
  from ttyWriter_print_result [OF assms this] obtain ls h where
    w1: "w1 = w\<lparr>repeated := True, numLines := int (length ls), spinners := h\<rparr>" and
    out: "out = [ANSI (replicate (nat (numLines w + 1)) (Up 1)
                         @ (if \<not> repeated w then [Down 1] else []) @ [Column 0]),
                  Hide,
                  Fprintln (if numLines w \<noteq> 0 \<and> numDone (events w) = numLines w
                            then Apply (''[+] Running '' @ Sprintf_d (numDone (events w)) @ ''/''
                                          @ Sprintf_d (numLines w)) BlueF
                            else Plain (''[+] Running '' @ Sprintf_d (numDone (events w)) @ ''/''
                                          @ Sprintf_d (numLines w)))]
                 @ map Fprint ls @ [Show]"
    by blast
  from out have el: "event_lines out = ls"
    by (simp only: event_lines_out)
  from out el show "\<exists>moves. out =
         [ANSI moves, Hide,
          Fprintln (if numDone (events w) = numLines w \<and> numLines w \<noteq> 0
                    then Apply (''[+] Running '' @ Sprintf_d (numDone (events w)) @ ''/''
                                  @ Sprintf_d (numLines w)) BlueF
                    else Plain (''[+] Running '' @ Sprintf_d (numDone (events w)) @ ''/''
                                  @ Sprintf_d (numLines w)))]
         @ map Fprint (event_lines out) @ [Show]"
    by (auto simp: conj_commute)
  from w1 el show "numLines w1 = int (length (event_lines out))"
    by simp
next
  show "numDone (events w) = int (length (filter (\<lambda>(k, e). Status e = Done) (events w)))"
    by (rule numDone_count)
next
  assume "ttyWriter_Event X t e w = Inr w2"
  then show "numLines w2 = numLines w"
    by (simp add: ttyWriter_Event_numLines)
qed

theorem print_header_witness:
  "eventIDs one_done \<noteq> [] \<and> well_formed one_done \<and>
   ttyWriter_print X0 3000000000 30 one_done =
     Inr (one_done,
          [ANSI [Up 1, Up 1, Column 0], Hide, Fprintln (Apply ''[+] Running 1/1'' BlueF),
           Fprint (Apply '' - a t ok                1.0s\<newline>'' BlueF), Show]) \<and>
   numLines one_done =
     int (length (event_lines
          [ANSI [Up 1, Up 1, Column 0], Hide, Fprintln (Apply ''[+] Running 1/1'' BlueF),
           Fprint (Apply '' - a t ok                1.0s\<newline>'' BlueF), Show])) \<and>
   ttyWriter_Event X0 3500000000 (produced ''b'' Working ''u'' []) one_done =
     Inr (one_done\<lparr>events := events one_done
                       @ [(''b'', (produced ''b'' Working ''u'' [])
                                    \<lparr>startTime := 3500000000, spinner := Some 1\<rparr>)],
                    eventIDs := [''a'', ''b''], spinners := [True, False]\<rparr>) \<and>
   numLines (one_done\<lparr>events := events one_done
                       @ [(''b'', (produced ''b'' Working ''u'' [])
                                    \<lparr>startTime := 3500000000, spinner := Some 1\<rparr>)],
                    eventIDs := [''a'', ''b''], spinners := [True, False]\<rparr>) = numLines one_done"
proof -
  let ?out = "[ANSI [Up 1, Up 1, Column 0], Hide, Fprintln (Apply ''[+] Running 1/1'' BlueF),
           Fprint (Apply '' - a t ok                1.0s\<newline>'' BlueF), Show]"
  have known: "eventIDs one_done \<noteq> []"
    by (simp add: one_done_def)
  have wf: "well_formed one_done"
    by code_simp
  have painted: "ttyWriter_print X0 3000000000 30 one_done = Inr (one_done, ?out)"
    by code_simp
  let ?w2 = "one_done\<lparr>events := events one_done
                       @ [(''b'', (produced ''b'' Working ''u'' [])
                                    \<lparr>startTime := 3500000000, spinner := Some 1\<rparr>)],
                    eventIDs := [''a'', ''b''], spinners := [True, False]\<rparr>"
  have recorded: "ttyWriter_Event X0 3500000000 (produced ''b'' Working ''u'' []) one_done = Inr ?w2"
    by code_simp
  note h = print_header [OF known, where X = X0 and now = 3000000000 and width = 30
      and ?w1.0 = one_done and out = ?out and t = 3500000000
      and e = "produced ''b'' Working ''u'' []" and ?w2.0 = ?w2]
  from h painted have "numLines one_done = int (length (event_lines ?out))"
    by blast
  moreover from h recorded have "numLines ?w2 = numLines one_done"
    by blast
  ultimately show ?thesis
    using known wf painted recorded by blast
qed

subsection \<open>The shared padding\<close>

lemma fold_max_step:
  "fold (\<lambda>v p. let l = f v in if p < l then l else p) ids (a::int) = Max (insert a (f ` set ids))"
proof -
  have "(\<lambda>v p. let l = f v in if p < l then l else p) = max \<circ> f"
    by (auto simp: fun_eq_iff Let_def max_def)
  then have "fold (\<lambda>v p. let l = f v in if p < l then l else p) ids a = fold max (map f ids) a"
    by (simp add: fold_map)
  also have "\<dots> = Max (set (a # map f ids))"
    by (rule Max.set_eq_fold [symmetric])
  finally show ?thesis by simp
qed

lemma statusPadding_of_Max:
  assumes "ids \<noteq> []"
  shows "statusPadding_of evs ids =
     Max ((\<lambda>v. int (length (ID (index evs v)) + 1 + length (Text (index evs v)))) ` set ids)"
proof -
  let ?f = "\<lambda>v. int (length (ID (index evs v) @ '' '' @ Text (index evs v)))"
  have "statusPadding_of evs ids = Max (insert 0 (?f ` set ids))"
    unfolding statusPadding_of_def by (rule fold_max_step)
  also have "\<dots> = max 0 (Max (?f ` set ids))"
    using assms by (subst Max_insert) simp_all
  also have "\<dots> = Max (?f ` set ids)"
  proof -
    from assms obtain v where "v \<in> set ids" by (cases ids) auto
    then have "?f v \<le> Max (?f ` set ids)" by (intro Max_ge) auto
    moreover have "0 \<le> ?f v" by simp
    ultimately show ?thesis by (simp add: max_def)
  qed
  also have "?f = (\<lambda>v. int (length (ID (index evs v)) + 1 + length (Text (index evs v))))"
    by (simp add: fun_eq_iff)
  finally show ?thesis .
qed

lemma statusPadding_of_ge:
  "v \<in> set ids \<Longrightarrow> int (length (ID (index evs v) @ '' '' @ Text (index evs v))) \<le> statusPadding_of evs ids"
proof -
  let ?f = "\<lambda>v. int (length (ID (index evs v) @ '' '' @ Text (index evs v)))"
  assume "v \<in> set ids"
  then have "?f v \<le> Max (insert 0 (?f ` set ids))" by (intro Max_ge) auto
  then show ?thesis
    unfolding statusPadding_of_def by (simp only: fold_max_step)
qed

lemma index_stored:
  "distinct (map fst evs) \<Longrightarrow> map (index evs) (map fst evs) = map snd evs"
  by (induction evs) (auto simp: index_def image_iff)

text \<open>
  Claim C6. In a repaint the shared padding \<open>P\<close> is the maximum of
  \<open>len(ID) + 1 + len(Text)\<close> over the known events: over the events that the map gives
  for the identifiers of the ordered list, which are the stored events when the list has
  the keys of the map. The repaint of a well-formed writer returns, and the lines written
  are, in the order of the list, the lines of these events laid out with \<open>P\<close>: after the
  frame of the spinner, which is not counted, the identifier, a space and the text are
  padded with spaces to the width \<open>P\<close> exactly, and the status text follows.
\<close>

theorem print_shared_padding:
  assumes "eventIDs w \<noteq> []"
  shows "statusPadding_of (events w) (eventIDs w) =
       Max ((\<lambda>v. int (length (ID (index (events w) v)) + 1 + length (Text (index (events w) v))))
              ` set (eventIDs w)) \<and>
     (distinct (eventIDs w) \<and> map fst (events w) = eventIDs w \<longrightarrow>
        statusPadding_of (events w) (eventIDs w) =
          Max ((\<lambda>e. int (length (ID e) + 1 + length (Text e))) ` snd ` set (events w))) \<and>
     (well_formed w \<longrightarrow> (\<exists>w1 out. ttyWriter_print X now width w = Inr (w1, out))) \<and>
     (ttyWriter_print X now width w = Inr (w1, out) \<longrightarrow>
        list_all2 (\<lambda>line v. \<exists>frame. line = line_of X now width
                      (statusPadding_of (events w) (eventIDs w)) (index (events w) v) frame)
          (event_lines out) (eventIDs w)) \<and>
     (\<forall>v \<in> set (eventIDs w).
        int (length ((ID (index (events w) v) @ '' '' @ Text (index (events w) v))
               @ replicate (nat (statusPadding_of (events w) (eventIDs w)
                      - int (length (ID (index (events w) v) @ '' '' @ Text (index (events w) v)))))
                   (CHR '' '')))
          = statusPadding_of (events w) (eventIDs w))"
proof (intro conjI impI ballI)
  show "statusPadding_of (events w) (eventIDs w) =
       Max ((\<lambda>v. int (length (ID (index (events w) v)) + 1 + length (Text (index (events w) v))))
              ` set (eventIDs w))"
    by (rule statusPadding_of_Max [OF assms])
next
  assume inv: "distinct (eventIDs w) \<and> map fst (events w) = eventIDs w"
  then have "map (index (events w)) (eventIDs w) = map snd (events w)"
    using index_stored [of "events w"] by simp
  then have "index (events w) ` set (eventIDs w) = snd ` set (events w)"
    by (metis list.set_map)
  then have "(\<lambda>v. int (length (ID (index (events w) v)) + 1 + length (Text (index (events w) v))))
              ` set (eventIDs w) =
      (\<lambda>e. int (length (ID e) + 1 + length (Text e))) ` snd ` set (events w)"
    by (metis (no_types, lifting) image_cong image_image)
  then show "statusPadding_of (events w) (eventIDs w) =
          Max ((\<lambda>e. int (length (ID e) + 1 + length (Text e))) ` snd ` set (events w))"
    by (simp only: statusPadding_of_Max [OF assms])
next
  assume "well_formed w"
  then show "\<exists>w1 out. ttyWriter_print X now width w = Inr (w1, out)"
    by (rule ttyWriter_print_total)
next
  assume "ttyWriter_print X now width w = Inr (w1, out)"
  from ttyWriter_print_result [OF assms this] obtain ls h where
    p: "printLines X now width (statusPadding_of (events w) (eventIDs w)) (events w)
             (eventIDs w) (spinners w) = Inr (ls, h)" and
    out: "event_lines out = ls"
    by (auto simp only: event_lines_out)
  from printLines_lines [OF p] out
  show "list_all2 (\<lambda>line v. \<exists>frame. line = line_of X now width
                   (statusPadding_of (events w) (eventIDs w)) (index (events w) v) frame)
       (event_lines out) (eventIDs w)"
    by simp
next
  fix v assume "v \<in> set (eventIDs w)"
  from statusPadding_of_ge [OF this, of "events w"]
  show "int (length ((ID (index (events w) v) @ '' '' @ Text (index (events w) v))
               @ replicate (nat (statusPadding_of (events w) (eventIDs w)
                      - int (length (ID (index (events w) v) @ '' '' @ Text (index (events w) v)))))
                   (CHR '' '')))
          = statusPadding_of (events w) (eventIDs w)"
    by simp
qed

theorem print_shared_padding_witness:
  "eventIDs web_database \<noteq> [] \<and>
   ttyWriter_print X0 4200000000 40 web_database =
     Inr (web_database,
          [ANSI [Up 1, Up 1, Up 1, Column 0], Hide, Fprintln (Plain ''[+] Running 1/2''),
           Fprint (Apply '' - web started      ok             2.0s\<newline>'' BlueF),
           Fprint (Apply '' * database pulling 50%            2.2s\<newline>'' WhiteF), Show]) \<and>
   distinct (eventIDs web_database) \<and> map fst (events web_database) = eventIDs web_database \<and>
   well_formed web_database \<and> ''web'' \<in> set (eventIDs web_database) \<and>
   statusPadding_of (events web_database) (eventIDs web_database) = 16 \<and>
   int (length ((ID (index (events web_database) ''web'') @ '' ''
                   @ Text (index (events web_database) ''web''))
          @ replicate (nat (16 - int (length (ID (index (events web_database) ''web'') @ '' ''
                   @ Text (index (events web_database) ''web''))))) (CHR '' ''))) = 16"
proof -
  let ?out = "[ANSI [Up 1, Up 1, Up 1, Column 0], Hide, Fprintln (Plain ''[+] Running 1/2''),
           Fprint (Apply '' - web started      ok             2.0s\<newline>'' BlueF),
           Fprint (Apply '' * database pulling 50%            2.2s\<newline>'' WhiteF), Show]"
  have known: "eventIDs web_database \<noteq> []"
    by (simp add: web_database_def)
  have painted: "ttyWriter_print X0 4200000000 40 web_database = Inr (web_database, ?out)"
    by code_simp
  have inv: "distinct (eventIDs web_database) \<and> map fst (events web_database) = eventIDs web_database"
    by (simp add: web_database_def)
  have web: "''web'' \<in> set (eventIDs web_database)"
    by (simp add: web_database_def)
  have P: "statusPadding_of (events web_database) (eventIDs web_database) = 16"
    by code_simp
  have wf: "well_formed web_database"
    by code_simp
  note t = print_shared_padding [OF known, where X = X0 and now = 4200000000 and width = 40
      and ?w1.0 = web_database and out = ?out]
  from t painted
  have lines: "list_all2 (\<lambda>line v. \<exists>frame. line = line_of X0 4200000000 40
                  (statusPadding_of (events web_database) (eventIDs web_database))
                  (index (events web_database) v) frame)
      (event_lines ?out) (eventIDs web_database)"
    by blast
  from t web
  have "int (length ((ID (index (events web_database) ''web'') @ '' ''
                   @ Text (index (events web_database) ''web''))
          @ replicate (nat (statusPadding_of (events web_database) (eventIDs web_database)
                 - int (length (ID (index (events web_database) ''web'') @ '' ''
                   @ Text (index (events web_database) ''web''))))) (CHR '' '')))
       = statusPadding_of (events web_database) (eventIDs web_database)"
    by blast
  then have "int (length ((ID (index (events web_database) ''web'') @ '' ''
                   @ Text (index (events web_database) ''web''))
          @ replicate (nat (16 - int (length (ID (index (events web_database) ''web'') @ '' ''
                   @ Text (index (events web_database) ''web''))))) (CHR '' ''))) = 16"
    by (simp only: P)
  with known painted inv web P wf lines show ?thesis
    by blast
qed

subsection \<open>The order of the events\<close>

lemma set_update_cases:
  "x \<in> set (AList.update k v al) \<Longrightarrow> x = (k, v) \<or> x \<in> set al"
  by (induction al) (auto split: if_splits)

lemma map_of_keys: "(map_of al k = None) = (k \<notin> set (map fst al))"
  by (simp add: map_of_eq_None_iff)

lemma live_mono: "live h p \<Longrightarrow> length h \<le> length h1 \<Longrightarrow> live h1 p"
  by (cases p) (simp_all add: live_def)

lemma live_update:
  assumes "list_all (\<lambda>(k, e). live h (spinner e)) evs" and "length h \<le> length h1"
    and "live h1 (spinner v)"
  shows "list_all (\<lambda>(k, e). live h1 (spinner e)) (AList.update k v evs)"
  unfolding list_all_iff
proof
  fix x assume "x \<in> set (AList.update k v evs)"
  then have "x = (k, v) \<or> x \<in> set evs" by (rule set_update_cases)
  then show "case x of (k, e) \<Rightarrow> live h1 (spinner e)"
  proof
    assume "x = (k, v)"
    with assms(3) show ?thesis by simp
  next
    assume "x \<in> set evs"
    with assms(1) have "case x of (k, e) \<Rightarrow> live h (spinner e)"
      by (simp add: list_all_iff)
    with assms(2) show ?thesis
      by (cases x) (simp add: live_mono)
  qed
qed

lemma consistent_keys:
  "consistent w \<Longrightarrow> (map_of (events w) k = None) = (k \<notin> set (eventIDs w))"
  unfolding consistent_def by (metis map_of_eq_None_iff set_map)

lemma ttyWriter_Event_consistent:
  assumes "consistent w"
  shows "\<exists>w1. ttyWriter_Event X now e w = Inr w1 \<and> consistent w1 \<and>
           eventIDs w1 = (if ID e \<in> set (eventIDs w) then eventIDs w else eventIDs w @ [ID e])"
proof (cases "map_of (events w) (ID e)")
  case None
  let ?e1 = "e\<lparr>startTime := now, spinner := Some (length (spinners w))\<rparr>"
  let ?w1 = "w\<lparr>eventIDs := (if contains (eventIDs w) (ID e) then eventIDs w else eventIDs w @ [ID e]),
            events := AList.update (ID e) ?e1 (events w),
            spinners := spinners w @ [newSpinner X now]\<rparr>"
  have r: "ttyWriter_Event X now e w = Inr ?w1"
    by (rule ttyWriter_Event_unseen [OF None])
  from None assms have new: "ID e \<notin> set (eventIDs w)"
    by (simp add: consistent_keys)
  have keys: "map fst (events ?w1) = eventIDs ?w1"
    using assms new by (simp add: consistent_def update_keys contains_set)
  have dist: "distinct (eventIDs ?w1)"
    using assms new by (simp add: consistent_def contains_set)
  have ids: "list_all (\<lambda>(k, e). ID e = k) (events ?w1)"
    using assms by (auto simp: consistent_def list_all_iff dest!: set_update_cases)
  have alive: "list_all (\<lambda>(k, e). live (spinners w @ [newSpinner X now]) (spinner e))
      (AList.update (ID e) ?e1 (events w))"
  proof (rule live_update [where h = "spinners w"])
    show "list_all (\<lambda>(k, e). live (spinners w) (spinner e)) (events w)"
      using assms by (simp add: consistent_def well_formed_def)
    show "length (spinners w) \<le> length (spinners w @ [newSpinner X now])"
      by simp
    show "live (spinners w @ [newSpinner X now]) (spinner ?e1)"
      by (simp add: live_def)
  qed
  have stored: "list_all (\<lambda>v. map_of (events ?w1) v \<noteq> None) (eventIDs ?w1)"
    using keys by (simp add: list_all_iff map_of_keys)
  from keys dist ids alive stored have "consistent ?w1"
    by (simp add: consistent_def well_formed_def)
  moreover have "eventIDs ?w1 = (if ID e \<in> set (eventIDs w) then eventIDs w else eventIDs w @ [ID e])"
    by (simp add: contains_set)
  ultimately show ?thesis using r by blast
next
  case (Some ev)
  from assms Some have old: "ID e \<in> set (eventIDs w)"
    using consistent_keys [OF assms, of "ID e"] by simp
  from Some have mem: "(ID e, ev) \<in> set (events w)" by (rule map_of_SomeD)
  with assms have "live (spinners w) (spinner ev)" and idev: "ID ev = ID e"
    by (auto simp: consistent_def well_formed_def list_all_iff)
  then obtain a where a: "spinner ev = Some a" "a < length (spinners w)"
    by (auto simp: live_def split: option.splits)
  define ev1 h where "ev1 = (if Status ev \<noteq> Done \<and> Status e = Done then ev\<lparr>endTime := now\<rparr> else ev)"
    and "h = (if Status ev \<noteq> Done \<and> Status e = Done
              then (spinners w)[a := spinner_Stop X (spinners w ! a)] else spinners w)"
  let ?w1 = "w\<lparr>eventIDs := (if contains (eventIDs w) (ID e) then eventIDs w else eventIDs w @ [ID e]),
            events := AList.update (ID e)
              (ev1\<lparr>Status := Status e, Text := Text e, StatusText := StatusText e\<rparr>) (events w),
            spinners := h\<rparr>"
  have r: "ttyWriter_Event X now e w = Inr ?w1"
    by (simp add: ttyWriter_Event_seen [OF Some] Event_stop_live [OF a] ev1_def h_def)
  have len: "length h = length (spinners w)"
    by (simp add: h_def)
  have keys: "map fst (events ?w1) = eventIDs ?w1"
    using assms old by (simp add: consistent_def update_keys contains_set)
  have dist: "distinct (eventIDs ?w1)"
    using assms old by (simp add: consistent_def contains_set)
  have ids: "list_all (\<lambda>(k, e). ID e = k) (events ?w1)"
    using assms idev by (auto simp: consistent_def list_all_iff ev1_def dest!: set_update_cases)
  have alive: "list_all (\<lambda>(k, e). live h (spinner e))
      (AList.update (ID e)
         (ev1\<lparr>Status := Status e, Text := Text e, StatusText := StatusText e\<rparr>) (events w))"
  proof (rule live_update [where h = "spinners w"])
    show "list_all (\<lambda>(k, e). live (spinners w) (spinner e)) (events w)"
      using assms by (simp add: consistent_def well_formed_def)
    show "length (spinners w) \<le> length h"
      using len by simp
    show "live h (spinner (ev1\<lparr>Status := Status e, Text := Text e, StatusText := StatusText e\<rparr>))"
      using a len by (simp add: live_def ev1_def)
  qed
  have stored: "list_all (\<lambda>v. map_of (events ?w1) v \<noteq> None) (eventIDs ?w1)"
    using keys by (simp add: list_all_iff map_of_keys)
  from keys dist ids alive stored have "consistent ?w1"
    by (simp add: consistent_def well_formed_def)
  moreover have "eventIDs ?w1 = (if ID e \<in> set (eventIDs w) then eventIDs w else eventIDs w @ [ID e])"
    by (simp add: contains_set)
  ultimately show ?thesis using r by blast
qed

lemma consistent_painted:
  assumes "consistent w" and "length h = length (spinners w)"
  shows "consistent (w\<lparr>repeated := r, numLines := n, spinners := h\<rparr>)"
proof -
  let ?w1 = "w\<lparr>repeated := r, numLines := n, spinners := h\<rparr>"
  have e: "events ?w1 = events w" "eventIDs ?w1 = eventIDs w" "spinners ?w1 = h"
    by simp_all
  from assms(1) have "well_formed ?w1"
    unfolding consistent_def well_formed_def e live_length [OF assms(2)] by blast
  with assms(1) show ?thesis
    unfolding consistent_def e by blast
qed

lemma ttyWriter_print_consistent:
  assumes "consistent w"
  shows "\<exists>w1 out. ttyWriter_print X now width w = Inr (w1, out) \<and> consistent w1 \<and>
           eventIDs w1 = eventIDs w \<and> events w1 = events w"
proof (cases "eventIDs w = []")
  case True
  with assms show ?thesis by (simp add: ttyWriter_print_def)
next
  case False
  from assms have "well_formed w" by (simp add: consistent_def)
  from ttyWriter_print_total [OF this] obtain w1 out where
    r: "ttyWriter_print X now width w = Inr (w1, out)"
    by blast
  from ttyWriter_print_result [OF False r] obtain ls h where
    p: "printLines X now width (statusPadding_of (events w) (eventIDs w)) (events w)
             (eventIDs w) (spinners w) = Inr (ls, h)" and
    w1: "w1 = w\<lparr>repeated := True, numLines := int (length ls), spinners := h\<rparr>"
    by blast
  from printLines_lines [OF p] have len: "length h = length (spinners w)"
    by simp
  from assms w1 len have "consistent w1"
    by (simp only: consistent_painted)
  with r w1 show ?thesis by simp
qed

lemma firstSeen_set: "set (firstSeen xs) = set xs"
  by (induction xs) auto

lemma firstSeen_distinct: "distinct (firstSeen xs)"
  by (induction xs) simp_all

lemma run_consistent:
  assumes "consistent w"
  shows "\<exists>w1 outs. run X cs w = Inr (w1, outs) \<and> consistent w1 \<and>
           eventIDs w1 = eventIDs w @ filter (\<lambda>v. v \<notin> set (eventIDs w)) (firstSeen (recorded cs))"
  using assms
proof (induction cs arbitrary: w)
  case Nil
  then show ?case by simp
next
  case (Cons c cs)
  show ?case
  proof (cases c)
    case (Record now e)
    from ttyWriter_Event_consistent [OF Cons.prems, of X now e] obtain w1 where
      r: "ttyWriter_Event X now e w = Inr w1" and c1: "consistent w1" and
      ids: "eventIDs w1 = (if ID e \<in> set (eventIDs w) then eventIDs w else eventIDs w @ [ID e])"
      by blast
    from Cons.IH [OF c1] obtain w2 outs where
      r2: "run X cs w1 = Inr (w2, outs)" and c2: "consistent w2" and
      ids2: "eventIDs w2 = eventIDs w1 @ filter (\<lambda>v. v \<notin> set (eventIDs w1)) (firstSeen (recorded cs))"
      by blast
    have "eventIDs w1 @ filter (\<lambda>v. v \<notin> set (eventIDs w1)) (firstSeen (recorded cs)) =
        eventIDs w @ filter (\<lambda>v. v \<notin> set (eventIDs w)) (firstSeen (recorded (c # cs)))"
    proof (cases "ID e \<in> set (eventIDs w)")
      case True
      then have "(\<lambda>v. v \<noteq> ID e \<and> v \<notin> set (eventIDs w)) = (\<lambda>v. v \<notin> set (eventIDs w))"
        by auto
      with True ids Record show ?thesis by simp
    next
      case False
      have "(\<lambda>v. v \<noteq> ID e \<and> v \<notin> set (eventIDs w)) = (\<lambda>v. v \<notin> set (eventIDs w) \<and> v \<noteq> ID e)"
        by auto
      with False ids Record show ?thesis by simp
    qed
    with r r2 c2 ids2 Record show ?thesis by simp
  next
    case (Repaint now width)
    from ttyWriter_print_consistent [OF Cons.prems, of X now width] obtain w1 out where
      r: "ttyWriter_print X now width w = Inr (w1, out)" and c1: "consistent w1" and
      ids: "eventIDs w1 = eventIDs w"
      by blast
    from Cons.IH [OF c1] obtain w2 outs where
      r2: "run X cs w1 = Inr (w2, outs)" and c2: "consistent w2" and
      ids2: "eventIDs w2 = eventIDs w1 @ filter (\<lambda>v. v \<notin> set (eventIDs w1)) (firstSeen (recorded cs))"
      by blast
    with r ids Repaint show ?thesis by simp
  qed
qed

lemma empty_consistent: "events w = [] \<Longrightarrow> eventIDs w = [] \<Longrightarrow> consistent w"
  by (simp add: consistent_def well_formed_def)

lemma consistent_index_ID:
  assumes "consistent w" and "v \<in> set (eventIDs w)"
  shows "ID (index (events w) v) = v"
proof -
  from assms obtain e where e: "map_of (events w) v = Some e"
    using consistent_keys [OF assms(1), of v] by auto
  then have "(v, e) \<in> set (events w)" by (rule map_of_SomeD)
  with assms(1) have "ID e = v" by (auto simp: consistent_def list_all_iff)
  with e show ?thesis by (simp add: index_def)
qed

text \<open>
  Claim C2. From a writer that has seen no event, every sequence of calls, recordings and
  repaints in any interleaving, runs without a panic and leaves a writer whose ordered
  list holds the recorded identifiers, each exactly once, in the order in which they were
  first seen, and whose map has exactly these keys, one entry for each, the event of an
  identifier being stored under it. A repaint made then, at any time and width, writes
  one line for each identifier, in that order: the line of the event stored for it.
\<close>

theorem first_seen_order:
  assumes "events w = []" and "eventIDs w = []"
  shows "\<exists>w1 outs. run X cs w = Inr (w1, outs) \<and>
     eventIDs w1 = firstSeen (recorded cs) \<and> distinct (eventIDs w1) \<and>
     set (eventIDs w1) = set (recorded cs) \<and>
     map fst (events w1) = eventIDs w1 \<and>
     (\<forall>v \<in> set (eventIDs w1). ID (index (events w1) v) = v) \<and>
     (\<forall>now width. \<exists>w2 out. ttyWriter_print X now width w1 = Inr (w2, out) \<and>
        eventIDs w2 = eventIDs w1 \<and>
        list_all2 (\<lambda>line v. \<exists>frame. line = line_of X now width
                      (statusPadding_of (events w1) (eventIDs w1)) (index (events w1) v) frame)
          (event_lines out) (firstSeen (recorded cs)))"
proof -
  from assms have "consistent w" by (rule empty_consistent)
  from run_consistent [OF this, of X cs] assms obtain w1 outs where
    r: "run X cs w = Inr (w1, outs)" and c: "consistent w1" and
    ids: "eventIDs w1 = firstSeen (recorded cs)"
    by auto
  have p: "\<exists>w2 out. ttyWriter_print X now width w1 = Inr (w2, out) \<and>
        eventIDs w2 = eventIDs w1 \<and>
        list_all2 (\<lambda>line v. \<exists>frame. line = line_of X now width
                      (statusPadding_of (events w1) (eventIDs w1)) (index (events w1) v) frame)
          (event_lines out) (firstSeen (recorded cs))" for now width
  proof (cases "eventIDs w1 = []")
    case True
    then have "ttyWriter_print X now width w1 = Inr (w1, [])"
      by (simp add: ttyWriter_print_def)
    moreover from True ids have "firstSeen (recorded cs) = []"
      by simp
    ultimately show ?thesis by simp
  next
    case False
    from ttyWriter_print_consistent [OF c, of X now width] obtain w2 out where
      r2: "ttyWriter_print X now width w1 = Inr (w2, out)" and ids2: "eventIDs w2 = eventIDs w1"
      by blast
    from ttyWriter_print_result [OF False r2] obtain ls h where
      pl: "printLines X now width (statusPadding_of (events w1) (eventIDs w1)) (events w1)
           (eventIDs w1) (spinners w1) = Inr (ls, h)" and
      out: "event_lines out = ls"
      by (auto simp only: event_lines_out)
    from printLines_lines [OF pl] out ids
    have "list_all2 (\<lambda>line v. \<exists>frame. line = line_of X now width
                      (statusPadding_of (events w1) (eventIDs w1)) (index (events w1) v) frame)
          (event_lines out) (firstSeen (recorded cs))"
      by simp
    with r2 ids2 show ?thesis by blast
  qed
  from c have d: "distinct (eventIDs w1)" and k: "map fst (events w1) = eventIDs w1"
    by (simp_all add: consistent_def)
  from ids have s: "set (eventIDs w1) = set (recorded cs)"
    by (simp add: firstSeen_set)
  from consistent_index_ID [OF c] have i: "\<forall>v \<in> set (eventIDs w1). ID (index (events w1) v) = v"
    by blast
  from r ids d s k i p show ?thesis by blast
qed

theorem first_seen_order_witness:
  "events (emptyWriter :: bool ttyWriter) = [] \<and> eventIDs (emptyWriter :: bool ttyWriter) = [] \<and>
   firstSeen (recorded [Record 1000000000 (produced ''web'' Working ''starting'' []),
           Record 2000000000 (produced ''database'' Working ''pulling'' ''50%''),
           Repaint 2500000000 40,
           Record 3000000000 (produced ''web'' Done ''started'' ''ok'')]) = [''web'', ''database''] \<and>
   (\<exists>w1 outs. run X0 [Record 1000000000 (produced ''web'' Working ''starting'' []),
           Record 2000000000 (produced ''database'' Working ''pulling'' ''50%''),
           Repaint 2500000000 40,
           Record 3000000000 (produced ''web'' Done ''started'' ''ok'')] emptyWriter = Inr (w1, outs) \<and>
      eventIDs w1 = [''web'', ''database''])"
proof -
  let ?cs = "[Record 1000000000 (produced ''web'' Working ''starting'' []),
           Record 2000000000 (produced ''database'' Working ''pulling'' ''50%''),
           Repaint 2500000000 40,
           Record 3000000000 (produced ''web'' Done ''started'' ''ok'')]"
  have e: "events (emptyWriter :: bool ttyWriter) = []" "eventIDs (emptyWriter :: bool ttyWriter) = []"
    by (simp_all add: emptyWriter_def)
  have f: "firstSeen (recorded ?cs) = [''web'', ''database'']"
    by code_simp
  from first_seen_order [OF e, of X0 ?cs] obtain w1 outs where
    r: "run X0 ?cs emptyWriter = Inr (w1, outs)" and i: "eventIDs w1 = firstSeen (recorded ?cs)"
    by blast
  from i have "eventIDs w1 = [''web'', ''database'']"
    by (simp only: f)
  with r have "\<exists>w1 outs. run X0 ?cs emptyWriter = Inr (w1, outs) \<and> eventIDs w1 = [''web'', ''database'']"
    by blast
  with e f show ?thesis
    by blast
qed

subsection \<open>Starting and stopping\<close>

lemma ttyWriter_print_well_formed:
  assumes "well_formed w"
  shows "\<exists>w1 out. ttyWriter_print X now width w = Inr (w1, out) \<and> well_formed w1"
proof (cases "eventIDs w = []")
  case True
  with assms show ?thesis by (simp add: ttyWriter_print_def)
next
  case False
  from ttyWriter_print_total [OF assms] obtain w1 out where
    r: "ttyWriter_print X now width w = Inr (w1, out)"
    by blast
  from ttyWriter_print_result [OF False r] obtain ls h where
    p: "printLines X now width (statusPadding_of (events w) (eventIDs w)) (events w)
             (eventIDs w) (spinners w) = Inr (ls, h)" and
    w1: "w1 = w\<lparr>repeated := True, numLines := int (length ls), spinners := h\<rparr>"
    by blast
  from printLines_lines [OF p] have len: "length h = length (spinners w)"
    by simp
  have e: "events w1 = events w" "eventIDs w1 = eventIDs w" "spinners w1 = h"
    using w1 by simp_all
  from assms have "well_formed w1"
    unfolding well_formed_def e live_length [OF len] by blast
  with r show ?thesis by blast
qed

lemma Start_ticks:
  assumes "well_formed w" and "list_all (\<lambda>s. fst s = ticker_C) ticks"
  shows "\<exists>w1 outs. Start X ticks w = Inr (w1, outs, Blocked) \<and> well_formed w1 \<and>
           length outs = length ticks"
  using assms
proof (induction ticks arbitrary: w)
  case Nil
  then show ?case by simp
next
  case (Cons s ticks)
  obtain now width where s: "s = (ticker_C, now, width)"
    using Cons.prems(2) by (cases s) auto
  from ttyWriter_print_well_formed [OF Cons.prems(1), of X now width] obtain w1 out where
    p: "ttyWriter_print X now width w = Inr (w1, out)" and wf: "well_formed w1"
    by blast
  from Cons.prems(2) have "list_all (\<lambda>s. fst s = ticker_C) ticks" by simp
  from Cons.IH [OF wf this] obtain w2 outs where
    "Start X ticks w1 = Inr (w2, outs, Blocked)" "well_formed w2" "length outs = length ticks"
    by blast
  with p s show ?case by simp
qed

lemma Start_append:
  "Start X ticks w = Inr (w1, outs, Blocked) \<Longrightarrow>
   Start X (ticks @ rest) w =
     (case Start X rest w1 of
        Inl p \<Rightarrow> Inl p
      | Inr (w2, outs2, r) \<Rightarrow> Inr (w2, outs @ outs2, r))"
proof (induction ticks arbitrary: w outs)
  case Nil
  then show ?case by (auto split: sum.splits)
next
  case (Cons s ticks)
  obtain rcv now width where s: "s = (rcv, now, width)" by (cases s)
  show ?case
  proof (cases rcv)
    case (ctx_Done err)
    with Cons.prems s show ?thesis by (auto split: sum.splits)
  next
    case w_done
    with Cons.prems s show ?thesis by (auto split: sum.splits)
  next
    case ticker_C
    with Cons.prems s obtain w3 out outs3 where
      p: "ttyWriter_print X now width w = Inr (w3, out)" and
      r: "Start X ticks w3 = Inr (w1, outs3, Blocked)" and o: "outs = out # outs3"
      by (auto split: sum.splits)
    from Cons.IH [OF r] p o s ticker_C show ?thesis
      by (auto split: sum.splits)
  qed
qed

text \<open>
  Claim C8. On a well-formed writer, as long as \<open>Start\<close> receives only ticks it has not
  returned, and it has called \<open>print\<close> once for each tick. When it then receives the stop
  signal it calls \<open>print\<close> exactly once more and returns nil; when it receives the
  cancellation of the context it calls \<open>print\<close> exactly once more and returns the error
  of the context. Whatever follows in the sequence is not looked at. (A call of \<open>print\<close>
  writes nothing while no event is known.)
\<close>

theorem Start_returns:
  assumes "well_formed w" and "list_all (\<lambda>s. fst s = ticker_C) ticks"
  shows "\<exists>w1 outs. Start X ticks w = Inr (w1, outs, Blocked) \<and> length outs = length ticks \<and>
     (\<forall>now width rest. \<exists>w2 out. ttyWriter_print X now width w1 = Inr (w2, out) \<and>
        Start X (ticks @ (w_done, now, width) # rest) w = Inr (w2, outs @ [out], Returned None) \<and>
        (\<forall>err. Start X (ticks @ (ctx_Done err, now, width) # rest) w =
                 Inr (w2, outs @ [out], Returned (Some err))))"
proof -
  from Start_ticks [OF assms, of X] obtain w1 outs where
    b: "Start X ticks w = Inr (w1, outs, Blocked)" and wf: "well_formed w1" and
    len: "length outs = length ticks"
    by blast
  have "\<exists>w2 out. ttyWriter_print X now width w1 = Inr (w2, out) \<and>
        Start X (ticks @ (w_done, now, width) # rest) w = Inr (w2, outs @ [out], Returned None) \<and>
        (\<forall>err. Start X (ticks @ (ctx_Done err, now, width) # rest) w =
                 Inr (w2, outs @ [out], Returned (Some err)))" for now width rest
  proof -
    from ttyWriter_print_well_formed [OF wf, of X now width] obtain w2 out where
      p: "ttyWriter_print X now width w1 = Inr (w2, out)"
      by blast
    then have "Start X (ticks @ (w_done, now, width) # rest) w = Inr (w2, outs @ [out], Returned None)"
      by (simp add: Start_append [OF b])
    moreover from p have "Start X (ticks @ (ctx_Done err, now, width) # rest) w =
                 Inr (w2, outs @ [out], Returned (Some err))" for err
      by (simp add: Start_append [OF b])
    ultimately show ?thesis using p by blast
  qed
  with b len show ?thesis by blast
qed

theorem Start_returns_witness:
  "well_formed one_done \<and>
   list_all (\<lambda>s. fst s = ticker_C) [(ticker_C, 3000000000 :: int, 30 :: int)] \<and>
   (\<exists>w1 outs. Start X0 [(ticker_C, 3000000000, 30)] one_done = Inr (w1, outs, Blocked) \<and>
      length outs = length [(ticker_C, 3000000000 :: int, 30 :: int)]) \<and>
   Start X0 [(ticker_C, 3000000000, 30), (w_done, 3100000000, 30)] one_done =
     Inr (one_done,
          [[ANSI [Up 1, Up 1, Column 0], Hide, Fprintln (Apply ''[+] Running 1/1'' BlueF),
            Fprint (Apply '' - a t ok                1.0s\<newline>'' BlueF), Show],
           [ANSI [Up 1, Up 1, Column 0], Hide, Fprintln (Apply ''[+] Running 1/1'' BlueF),
            Fprint (Apply '' - a t ok                1.0s\<newline>'' BlueF), Show]],
          Returned None) \<and>
   Start X0 [(ticker_C, 3000000000, 30), (ctx_Done Canceled, 3100000000, 30)] one_done =
     Inr (one_done,
          [[ANSI [Up 1, Up 1, Column 0], Hide, Fprintln (Apply ''[+] Running 1/1'' BlueF),
            Fprint (Apply '' - a t ok                1.0s\<newline>'' BlueF), Show],
           [ANSI [Up 1, Up 1, Column 0], Hide, Fprintln (Apply ''[+] Running 1/1'' BlueF),
            Fprint (Apply '' - a t ok                1.0s\<newline>'' BlueF), Show]],
          Returned (Some Canceled))"
proof -
  have wf: "well_formed one_done"
    by code_simp
  have ticks: "list_all (\<lambda>s. fst s = ticker_C) [(ticker_C, 3000000000 :: int, 30 :: int)]"
    by simp
  from Start_returns [OF wf ticks, of X0]
  have blocked: "\<exists>w1 outs. Start X0 [(ticker_C, 3000000000, 30)] one_done = Inr (w1, outs, Blocked) \<and>
      length outs = length [(ticker_C, 3000000000 :: int, 30 :: int)]"
    by blast
  have stopped: "Start X0 [(ticker_C, 3000000000, 30), (w_done, 3100000000, 30)] one_done =
     Inr (one_done,
          [[ANSI [Up 1, Up 1, Column 0], Hide, Fprintln (Apply ''[+] Running 1/1'' BlueF),
            Fprint (Apply '' - a t ok                1.0s\<newline>'' BlueF), Show],
           [ANSI [Up 1, Up 1, Column 0], Hide, Fprintln (Apply ''[+] Running 1/1'' BlueF),
            Fprint (Apply '' - a t ok                1.0s\<newline>'' BlueF), Show]],
          Returned None)"
    by code_simp
  have cancelled: "Start X0 [(ticker_C, 3000000000, 30), (ctx_Done Canceled, 3100000000, 30)] one_done =
     Inr (one_done,
          [[ANSI [Up 1, Up 1, Column 0], Hide, Fprintln (Apply ''[+] Running 1/1'' BlueF),
            Fprint (Apply '' - a t ok                1.0s\<newline>'' BlueF), Show],
           [ANSI [Up 1, Up 1, Column 0], Hide, Fprintln (Apply ''[+] Running 1/1'' BlueF),
            Fprint (Apply '' - a t ok                1.0s\<newline>'' BlueF), Show]],
          Returned (Some Canceled))"
    by code_simp
  from wf ticks blocked stopped cancelled show ?thesis
    by blast
qed

subsection \<open>The width of the terminal\<close>

lemma printLines_width:
  "printLines X now width P evs ids h = Inr (ls, h1) \<Longrightarrow>
   \<exists>ls1. printLines X now width1 P evs ids h = Inr (ls1, h1) \<and> length ls1 = length ls"
proof (induction ids arbitrary: h ls)
  case Nil
  then show ?case by simp
next
  case (Cons v vs)
  from Cons.prems obtain frame h2 ls2 where
    s: "String_at X now (spinner (index evs v)) h = Inr (frame, h2)" and
    r: "printLines X now width P evs vs h2 = Inr (ls2, h1)" and
    l: "ls = line_of X now width P (index evs v) frame # ls2"
    by (auto simp: lineText_layout split: sum.splits)
  from Cons.IH [OF r] obtain ls3 where
    "printLines X now width1 P evs vs h2 = Inr (ls3, h1)" "length ls3 = length ls2"
    by blast
  with s l show ?case by (simp add: lineText_layout)
qed

text \<open>
  Claim C4, as the code has it. No clamp is applied to the width of the terminal: a repaint
  passes it to \<open>lineText\<close>, which passes it unchanged to \<open>align\<close>. A width that is zero,
  negative or too small for the line does not make the rendering fail: a repaint that
  returns at one width returns at every other width, with the same writer and as many
  items written. Where the field width \<open>W - len(r) - 1\<close> is negative (down to \<open>-10\<^sup>6\<close>),
  \<^verbatim>\<open>fmt\<close> pads the left segment to its absolute value.
\<close>

theorem print_any_width:
  "(ttyWriter_print X now width w = Inr (w1, out) \<longrightarrow>
      (\<exists>out1. ttyWriter_print X now width1 w = Inr (w1, out1) \<and> length out1 = length out)) \<and>
   (lineText X now e width P h = Inr (line, h1) \<longrightarrow>
      (\<exists>frame. line = Apply (align (left_segment frame e P) (timer_of X now e) width)
                         (color_of (Status e)))) \<and>
   (W - int (length r) - 1 < 0 \<and> - 1000000 \<le> W - int (length r) - 1 \<longrightarrow>
      align l r W =
        l @ replicate (nat (int (length r) + 1 - W - int (RuneCountInString l))) (CHR '' '')
          @ '' '' @ r)"
proof (intro conjI impI)
  assume r: "ttyWriter_print X now width w = Inr (w1, out)"
  show "\<exists>out1. ttyWriter_print X now width1 w = Inr (w1, out1) \<and> length out1 = length out"
  proof (cases "eventIDs w = []")
    case True
    with r show ?thesis by (simp add: ttyWriter_print_def)
  next
    case False
    from ttyWriter_print_result [OF False r] obtain ls h where
      p: "printLines X now width (statusPadding_of (events w) (eventIDs w)) (events w)
             (eventIDs w) (spinners w) = Inr (ls, h)" and
      w1: "w1 = w\<lparr>repeated := True, numLines := int (length ls), spinners := h\<rparr>" and
      out: "length out = length ls + 4"
      by auto
    from printLines_width [OF p, of width1] obtain ls1 where
      "printLines X now width1 (statusPadding_of (events w) (eventIDs w)) (events w)
             (eventIDs w) (spinners w) = Inr (ls1, h)" "length ls1 = length ls"
      by blast
    with False w1 out show ?thesis
      by (simp add: ttyWriter_print_def Let_def)
  qed
next
  assume "lineText X now e width P h = Inr (line, h1)"
  then show "\<exists>frame. line = Apply (align (left_segment frame e P) (timer_of X now e) width)
                         (color_of (Status e))"
    by (auto simp: lineText_layout line_of_def split: sum.splits)
next
  assume n: "W - int (length r) - 1 < 0 \<and> - 1000000 \<le> W - int (length r) - 1"
  then have "\<not> tooLarge (W - int (length r) - 1)" by (simp add: tooLarge_def)
  moreover from n have "\<bar>W - int (length r) - 1\<bar> = int (length r) + 1 - W" by simp
  ultimately show "align l r W =
        l @ replicate (nat (int (length r) + 1 - W - int (RuneCountInString l))) (CHR '' '')
          @ '' '' @ r"
    by (simp add: align_def Sprintf_left_padded)
qed

theorem print_any_width_witness:
  "ttyWriter_print X0 3000000000 30 one_done =
     Inr (one_done,
          [ANSI [Up 1, Up 1, Column 0], Hide, Fprintln (Apply ''[+] Running 1/1'' BlueF),
           Fprint (Apply '' - a t ok                1.0s\<newline>'' BlueF), Show]) \<and>
   (\<exists>out1. ttyWriter_print X0 3000000000 (- 1) one_done = Inr (one_done, out1) \<and>
      length out1 = length
          [ANSI [Up 1, Up 1, Column 0], Hide, Fprintln (Apply ''[+] Running 1/1'' BlueF),
           Fprint (Apply '' - a t ok                1.0s\<newline>'' BlueF), Show]) \<and>
   lineText X0 3000000000 (index (events one_done) ''a'') 0 5 (spinners one_done) =
     Inr (Apply '' - a t   ok 1.0s\<newline>'' BlueF, [True]) \<and>
   0 - int (length ''s'') - 1 < 0 \<and> - 1000000 \<le> 0 - int (length ''s'') - 1 \<and>
   align ''a'' ''s'' 0 = ''a  s''"
proof -
  let ?out = "[ANSI [Up 1, Up 1, Column 0], Hide, Fprintln (Apply ''[+] Running 1/1'' BlueF),
           Fprint (Apply '' - a t ok                1.0s\<newline>'' BlueF), Show]"
  have painted: "ttyWriter_print X0 3000000000 30 one_done = Inr (one_done, ?out)"
    by code_simp
  have line: "lineText X0 3000000000 (index (events one_done) ''a'') 0 5 (spinners one_done) =
     Inr (Apply '' - a t   ok 1.0s\<newline>'' BlueF, [True])"
    by code_simp
  have narrow: "0 - int (length ''s'') - 1 < 0 \<and> - 1000000 \<le> 0 - int (length ''s'') - 1"
    by simp
  note t = print_any_width [where X = X0 and now = 3000000000 and width = 30 and w = one_done
      and ?w1.0 = one_done and out = ?out and ?width1.0 = "- 1" and W = 0 and r = "''s''"
      and l = "''a''"]
  from t painted
  have any: "\<exists>out1. ttyWriter_print X0 3000000000 (- 1) one_done = Inr (one_done, out1) \<and>
      length out1 = length ?out"
    by blast
  from t narrow
  have "align ''a'' ''s'' 0 =
      ''a'' @ replicate (nat (int (length ''s'') + 1 - 0 - int (RuneCountInString ''a''))) (CHR '' '')
        @ '' '' @ ''s''"
    by blast
  then have a: "align ''a'' ''s'' 0 = ''a  s''"
    by (simp add: runeSize_def)
  from painted any line narrow a show ?thesis
    by blast
qed

text \<open>
  Claim C4 as it is written fails: a width clamped to a floor would give the same line
  for every width below the floor, but the widths \<open>0\<close> and \<open>-5\<close> give different lines.
  The malformed width reaches the layout, and the more negative it is the longer the
  line.
\<close>

theorem print_negative_width_counterexample:
  "ttyWriter_print X0 3000000000 0 one_done =
     Inr (one_done,
          [ANSI [Up 1, Up 1, Column 0], Hide, Fprintln (Apply ''[+] Running 1/1'' BlueF),
           Fprint (Apply '' - a t ok 1.0s\<newline>'' BlueF), Show]) \<and>
   ttyWriter_print X0 3000000000 (- 5) one_done =
     Inr (one_done,
          [ANSI [Up 1, Up 1, Column 0], Hide, Fprintln (Apply ''[+] Running 1/1'' BlueF),
           Fprint (Apply '' - a t ok   1.0s\<newline>'' BlueF), Show])"
  by code_simp

end
